theory Spec2Isabelle
  imports Complex_Main "HOL-Library.AList" "HOL-Library.Multiset"
begin

section \<open>The shared order service of KgBites (OrderService), embedded in HOL\<close>

text \<open>
  The embedding follows the class \<open>OrderService\<close> of the shared order service. Orders are
  JavaScript objects kept as JSON text under five \<open>localStorage\<close> keys and one
  \<open>sessionStorage\<close> key. A JavaScript object is an association list (keys in insertion
  order), a property that may be missing is an \<open>option\<close>, and the two storages are functions
  from key names to the parsed object (\<open>None\<close> when \<open>getItem\<close> gives nothing usable).
  Instants (\<open>Date.now()\<close>, ISO date strings) are milliseconds since the epoch, as naturals;
  every operation receives the instant \<open>now\<close> at which it runs.
\<close>

subsection \<open>Data\<close>

record item =
  item_id :: nat
  item_name :: string
  quantity :: nat
  delivered :: bool

record order =
  order_code :: "string option"
  otp_status :: "string option"
  created_at :: "nat option"
  updated_at :: "nat option"
  expires_at :: "nat option"
  used_at :: "nat option"
  generated_by :: "string option"
  items_by_counter :: "(string \<times> item list) list option"
  counters_involved :: "string list option"
  counters_completed :: "string list option"
  is_complete :: "bool option"

type_synonym orders = "(string \<times> order) list"

record store =
  localStorage :: "string \<Rightarrow> orders option"
  sessionStorage :: "string \<Rightarrow> orders option"

text \<open>The answer of the status endpoint: \<open>{ status, used_at }\<close>.\<close>

record status_response =
  status :: "string option"
  res_used_at :: "nat option"

subsection \<open>The clock and the property names\<close>

text \<open>
  \<open>toISOString\<close> throws a \<open>RangeError\<close> for an instant beyond the last one a \<open>Date\<close> can hold,
  8.64e15 ms. The operations format \<open>now\<close>, which a clock never puts beyond that, and
  \<open>now + 24 h\<close> (in \<open>saveOrder\<close> and in the upgrade of a legacy order), which lies beyond
  it in the last 24 hours of the range: there the source catches the error and gives up.
  The definitions below embed the operations for the instants \<open>now\<close> with \<open>in_date_range
  now\<close>, where nothing is thrown.
\<close>

definition max_time :: nat where
  "max_time = 8640000000000000"

definition in_date_range :: "nat \<Rightarrow> bool" where
  "in_date_range now = (now + 24 * 60 * 60 * 1000 \<le> max_time)"

text \<open>
  A property read \<open>orders[name]\<close> finds the own properties of the object and, for the names
  that \<open>Object.prototype\<close> defines, an inherited value that is no order. The definitions
  below read own properties only (\<open>map_of\<close>): they embed the operations for the order
  codes and counter names with \<open>own_name\<close>, which excludes the names of
  \<open>Object.prototype\<close>.
\<close>

definition object_prototype_names :: "string list" where
  "object_prototype_names =
     [''constructor'', ''__proto__'', ''hasOwnProperty'', ''isPrototypeOf'',
      ''propertyIsEnumerable'', ''toLocaleString'', ''toString'', ''valueOf'',
      ''__defineGetter__'', ''__defineSetter__'', ''__lookupGetter__'', ''__lookupSetter__'']"

definition own_name :: "string \<Rightarrow> bool" where
  "own_name name = (name \<notin> set object_prototype_names)"

subsection \<open>Object spread\<close>

text \<open>
  \<open>{...a, ...b}\<close> on objects: each own key of \<open>b\<close>, in order, is read from \<open>b\<close> and
  set on the copy of \<open>a\<close>; the keys of \<open>a\<close> keep their place and new keys go to the end.
\<close>

definition spread :: "('k \<times> 'v) list \<Rightarrow> ('k \<times> 'v) list \<Rightarrow> ('k \<times> 'v) list" where
  "spread a b =
     fold (\<lambda>k acc. case map_of b k of Some v \<Rightarrow> AList.update k v acc | None \<Rightarrow> acc)
          (map fst b) a"

definition or_else :: "'a option \<Rightarrow> 'a option \<Rightarrow> 'a option" where
  "or_else b a = (case b of Some x \<Rightarrow> Some x | None \<Rightarrow> a)"

text \<open>\<open>{...a, ...b}\<close> on two order objects, property by property.\<close>

definition spread_order :: "order \<Rightarrow> order \<Rightarrow> order" where
  "spread_order a b =
     \<lparr> order_code = or_else (order_code b) (order_code a),
       otp_status = or_else (otp_status b) (otp_status a),
       created_at = or_else (created_at b) (created_at a),
       updated_at = or_else (updated_at b) (updated_at a),
       expires_at = or_else (expires_at b) (expires_at a),
       used_at = or_else (used_at b) (used_at a),
       generated_by = or_else (generated_by b) (generated_by a),
       items_by_counter = or_else (items_by_counter b) (items_by_counter a),
       counters_involved = or_else (counters_involved b) (counters_involved a),
       counters_completed = or_else (counters_completed b) (counters_completed a),
       is_complete = or_else (is_complete b) (is_complete a) \<rparr>"

text \<open>The object \<open>{}\<close>.\<close>

definition no_fields :: order where
  "no_fields =
     \<lparr> order_code = None, otp_status = None, created_at = None, updated_at = None,
       expires_at = None, used_at = None, generated_by = None, items_by_counter = None,
       counters_involved = None, counters_completed = None, is_complete = None \<rparr>"

text \<open>JavaScript truthiness of a string property: present and not the empty string.\<close>

definition truthy :: "string option \<Rightarrow> bool" where
  "truthy s = (case s of None \<Rightarrow> False | Some x \<Rightarrow> x \<noteq> [])"

subsection \<open>getAllOrders\<close>

definition allKeys :: "string list" where
  "allKeys = [''kgbites_orders'', ''kgbites_shared_orders'', ''kgbites_student_orders'',
              ''kgbites_staff_orders'', ''kgbites_cross_port_orders'']"

definition day_ms :: nat where
  "day_ms = 24 * 60 * 60 * 1000"

definition read_keys :: "store \<Rightarrow> orders" where
  "read_keys st =
     fold (\<lambda>key allOrders.
             case localStorage st key of
               Some orders \<Rightarrow> spread allOrders orders
             | None \<Rightarrow> allOrders)
          allKeys []"

definition read_backup :: "store \<Rightarrow> orders \<Rightarrow> orders" where
  "read_backup st allOrders =
     (case sessionStorage st ''kgbites_orders_backup'' of
        Some backupOrders \<Rightarrow> spread allOrders backupOrders
      | None \<Rightarrow> allOrders)"

text \<open>\<open>order.expires_at && new Date(order.expires_at) < now\<close>\<close>

definition is_expired :: "nat \<Rightarrow> order \<Rightarrow> bool" where
  "is_expired now ord = (case expires_at ord of Some e \<Rightarrow> e < now | None \<Rightarrow> False)"

text \<open>
  The loop over \<open>Object.keys(allOrders)\<close> that deletes the expired orders. The keys of an
  object are distinct, so the lookup in the loop always finds the order; the \<open>None\<close> branch
  is there for lists that repeat a key only.
\<close>

definition purge_expired :: "nat \<Rightarrow> orders \<Rightarrow> orders" where
  "purge_expired now allOrders =
     fold (\<lambda>orderCode acc.
             case map_of acc orderCode of
               Some ord \<Rightarrow> if is_expired now ord then AList.delete orderCode acc else acc
             | None \<Rightarrow> acc)
          (map fst allOrders) allOrders"

definition write_keys :: "string list \<Rightarrow> orders \<Rightarrow> store \<Rightarrow> store" where
  "write_keys keys os st =
     st\<lparr>localStorage := fold (\<lambda>key ls. ls(key \<mapsto> os)) keys (localStorage st)\<rparr>"

definition write_backup :: "orders \<Rightarrow> store \<Rightarrow> store" where
  "write_backup os st =
     st\<lparr>sessionStorage := (sessionStorage st)(''kgbites_orders_backup'' \<mapsto> os)\<rparr>"

definition getAllOrders :: "store \<Rightarrow> nat \<Rightarrow> orders \<times> store" where
  "getAllOrders st now =
     (let allOrders = purge_expired now (read_backup st (read_keys st));
          totalOrders = length allOrders
      in (allOrders, if totalOrders > 0 then write_keys allKeys allOrders st else st))"

subsection \<open>saveOrder\<close>

text \<open>
  \<open>orders[orderData.order_code] = orderWithOTP\<close>: a missing code is the property name
  \<open>undefined\<close>.
\<close>

definition key_of :: "string option \<Rightarrow> string" where
  "key_of c = (case c of Some s \<Rightarrow> s | None \<Rightarrow> ''undefined'')"

definition saveOrder :: "store \<Rightarrow> nat \<Rightarrow> string \<Rightarrow> order \<Rightarrow> bool \<times> store" where
  "saveOrder st now origin orderData =
     (let orderWithOTP = orderData
            \<lparr> created_at := Some now,
              updated_at := Some now,
              otp_status := Some ''active'',
              generated_by := Some origin,
              expires_at := Some (now + day_ms) \<rparr>;
          (orders, st1) = getAllOrders st now;
          orders' = AList.update (key_of (order_code orderData)) orderWithOTP orders
      in (True, write_backup orders' (write_keys allKeys orders' st1)))"

subsection \<open>updateOrder\<close>

definition updateOrder :: "store \<Rightarrow> nat \<Rightarrow> string \<Rightarrow> order \<Rightarrow> bool \<times> store" where
  "updateOrder st now orderCode updates =
     (let (orders, st1) = getAllOrders st now
      in case map_of orders orderCode of
           Some ord \<Rightarrow>
             (let orders' = AList.update orderCode
                              ((spread_order ord updates)\<lparr>updated_at := Some now\<rparr>) orders
              in (True, write_backup orders' (write_keys allKeys orders' st1)))
         | None \<Rightarrow> (False, st1))"

subsection \<open>getOrderByCode\<close>

definition upgrade_legacy :: "nat \<Rightarrow> order \<Rightarrow> order" where
  "upgrade_legacy now ord =
     ord\<lparr> otp_status := Some ''active'',
          expires_at := Some (now + day_ms),
          generated_by := (if truthy (generated_by ord) then generated_by ord
                           else Some ''Legacy System'') \<rparr>"

definition getOrderByCode :: "store \<Rightarrow> nat \<Rightarrow> string \<Rightarrow> order option \<times> store" where
  "getOrderByCode st now orderCode =
     (let (orders, st1) = getAllOrders st now
      in case map_of orders orderCode of
           None \<Rightarrow> (None, st1)
         | Some ord0 \<Rightarrow>
             (let (ord, st2) =
                    (if \<not> truthy (otp_status ord0)
                     then (let ord1 = upgrade_legacy now ord0
                           in (ord1, snd (updateOrder st1 now orderCode ord1)))
                     else (ord0, st1))
              in if otp_status ord = Some ''used'' then (None, st2)
                 else if is_expired now ord then (None, st2)
                 else (Some ord, st2)))"

subsection \<open>markOrderAsUsed\<close>

definition markOrderAsUsed :: "store \<Rightarrow> nat \<Rightarrow> string \<Rightarrow> bool \<times> store" where
  "markOrderAsUsed st now orderCode =
     (let (orders, st1) = getAllOrders st now
      in case map_of orders orderCode of
           Some ord \<Rightarrow>
             if otp_status ord = Some ''active''
             then (let orders' = AList.update orderCode
                                   (ord\<lparr>otp_status := Some ''used'', used_at := Some now\<rparr>)
                                   orders
                   in (True, write_keys [''kgbites_orders'', ''kgbites_shared_orders'']
                               orders' st1))
             else (False, st1)
         | None \<Rightarrow> (False, st1))"

subsection \<open>markCounterDelivered\<close>

text \<open>\<open>item => ({...item, delivered: deliveredItems.includes(item.id) ? true : item.delivered})\<close>\<close>

definition mark_item :: "nat list \<Rightarrow> item \<Rightarrow> item" where
  "mark_item deliveredItems it =
     it\<lparr>delivered := (if item_id it \<in> set deliveredItems then True else delivered it)\<rparr>"

definition mark_group :: "string \<Rightarrow> nat list \<Rightarrow> order \<Rightarrow> order" where
  "mark_group counterName deliveredItems ord =
     (case items_by_counter ord of
        None \<Rightarrow> ord
      | Some groups \<Rightarrow>
          (case map_of groups counterName of
             None \<Rightarrow> ord
           | Some its \<Rightarrow>
               ord\<lparr>items_by_counter :=
                     Some (AList.update counterName (map (mark_item deliveredItems) its)
                             groups)\<rparr>))"

definition add_completed :: "string \<Rightarrow> order \<Rightarrow> order" where
  "add_completed counterName ord =
     (let done = (case counters_completed ord of None \<Rightarrow> [] | Some cs \<Rightarrow> cs)
      in ord\<lparr>counters_completed :=
               Some (if counterName \<in> set done then done else done @ [counterName])\<rparr>)"

text \<open>\<open>Object.keys(order.items_by_counter || {})\<close>\<close>

definition counter_keys :: "order \<Rightarrow> string list" where
  "counter_keys ord = (case items_by_counter ord of None \<Rightarrow> [] | Some groups \<Rightarrow> map fst groups)"

definition completed_list :: "order \<Rightarrow> string list" where
  "completed_list ord = (case counters_completed ord of None \<Rightarrow> [] | Some cs \<Rightarrow> cs)"

definition check_complete :: "order \<Rightarrow> order" where
  "check_complete ord =
     ord\<lparr>is_complete :=
           Some (list_all (\<lambda>counter. counter \<in> set (completed_list ord)) (counter_keys ord))\<rparr>"

text \<open>Lines 333 to 353: what one call does to the order object it looked up.\<close>

definition deliver_order :: "string \<Rightarrow> nat list \<Rightarrow> order \<Rightarrow> order" where
  "deliver_order counterName deliveredItems ord =
     check_complete (add_completed counterName (mark_group counterName deliveredItems ord))"

definition markCounterDelivered ::
  "store \<Rightarrow> nat \<Rightarrow> string \<Rightarrow> string \<Rightarrow> nat list \<Rightarrow> bool \<times> store" where
  "markCounterDelivered st now orderCode counterName deliveredItems =
     (case getOrderByCode st now orderCode of
        (None, st1) \<Rightarrow> (False, st1)
      | (Some ord, st1) \<Rightarrow>
          updateOrder st1 now orderCode (deliver_order counterName deliveredItems ord))"

subsection \<open>syncOrderStatusFromServer\<close>

text \<open>
  The answer \<open>statusRes\<close> of \<open>fetchOtpStatus\<close> comes from the server and is a parameter.
  \<open>current.counters_involved || Object.keys(current.items_by_counter || {})\<close>: an array is
  truthy, also when empty.
\<close>

definition involved :: "order \<Rightarrow> string list" where
  "involved current =
     (case counters_involved current of Some cs \<Rightarrow> cs | None \<Rightarrow> counter_keys current)"

definition syncOrderStatusFromServer ::
  "store \<Rightarrow> nat \<Rightarrow> string \<Rightarrow> status_response \<Rightarrow> order option \<times> store" where
  "syncOrderStatusFromServer st now orderCode statusRes =
     (let (currentAll, st1) = getAllOrders st now;
          current = (case map_of currentAll orderCode of Some c \<Rightarrow> c | None \<Rightarrow> no_fields);
          s = status statusRes;
          st2 =
            (if s = Some ''used'' then
               snd (updateOrder st1 now orderCode
                      (no_fields\<lparr> otp_status := Some ''used'',
                                  is_complete := Some True,
                                  counters_completed := Some (involved current),
                                  used_at := Some (case res_used_at statusRes of
                                                     Some u \<Rightarrow> u | None \<Rightarrow> now) \<rparr>))
             else if s = Some ''expired'' then
               snd (updateOrder st1 now orderCode (no_fields\<lparr>otp_status := Some ''expired''\<rparr>))
             else if s = Some ''active'' then
               snd (updateOrder st1 now orderCode (no_fields\<lparr>otp_status := Some ''active''\<rparr>))
             else if s = Some ''not_found'' then st1
             else if s = Some ''error'' then st1
             else st1);
          (all, st3) = getAllOrders st2 now
      in (map_of all orderCode, st3))"

subsection \<open>generateOrderCode\<close>

definition letters :: string where
  "letters = ''ABCDEFGHIJKLMNOPQRSTUVWXYZ''"

definition numbers :: string where
  "numbers = ''0123456789''"

definition maxAttempts :: nat where
  "maxAttempts = 100"

text \<open>\<open>s.charAt(i)\<close> is the empty string out of range.\<close>

definition charAt :: "string \<Rightarrow> nat \<Rightarrow> string" where
  "charAt s i = (if i < length s then [s ! i] else [])"

text \<open>
  A value of \<open>Math.random()\<close> is a double from 0 (included) to 1 (excluded). The pair
  \<open>(m, e)\<close> stands for the double \<open>m / 2 ^ e\<close>; every double of that interval is such a pair with
  \<open>m\<close> below \<open>2 ^ 53\<close> and \<open>e\<close> from 53 to 1074.
\<close>

type_synonym double = "nat \<times> nat"

definition is_unit_double :: "double \<Rightarrow> bool" where
  "is_unit_double r = (fst r < 2 ^ 53 \<and> 53 \<le> snd r \<and> snd r \<le> 1074)"

text \<open>The number of binary digits of a natural number.\<close>

fun bit_length :: "nat \<Rightarrow> nat" where
  "bit_length n = (if n = 0 then 0 else Suc (bit_length (n div 2)))"

text \<open>
  The product of two doubles is the exact product rounded to 53 significant binary digits,
  to the nearest and to the even neighbour on a tie. \<open>round_to_double q\<close> rounds the natural
  number \<open>q\<close> so, and the product \<open>(m / 2 ^ e) * n\<close> is \<open>round_to_double (m * n) / 2 ^ e\<close>: a
  product that needs rounding is at least \<open>2 ^ 53 / 2 ^ 1074\<close>, a normal double, where the
  precision is 53 digits.
\<close>

definition round_to_double :: "nat \<Rightarrow> nat" where
  "round_to_double q =
     (if q < 2 ^ 53 then q
      else (let sh = bit_length q - 53;
                t = q div 2 ^ sh;
                r = q mod 2 ^ sh;
                half = 2 ^ (sh - 1)
            in (if r > half \<or> (r = half \<and> odd t) then t + 1 else t) * 2 ^ sh))"

text \<open>
  \<open>Math.floor(Math.random() * s.length)\<close>, for the value \<open>r = (m, e)\<close> of \<open>Math.random()\<close>:
  the double product is \<open>round_to_double (m * s.length) / 2 ^ e\<close>, and \<open>Math.floor\<close> is exact.
\<close>

definition random_index :: "double \<Rightarrow> string \<Rightarrow> nat" where
  "random_index r s = round_to_double (fst r * length s) div 2 ^ snd r"

text \<open>
  One pass of the loop body draws six numbers; \<open>rnd k\<close> is the value of the \<open>k\<close>-th call of
  \<open>Math.random()\<close>, and pass \<open>i\<close> (from 0) makes the calls \<open>6 * i\<close> to \<open>6 * i + 5\<close>.
\<close>

definition draw_code :: "(nat \<Rightarrow> double) \<Rightarrow> nat \<Rightarrow> string" where
  "draw_code rnd i =
     charAt letters (random_index (rnd (6 * i)) letters) @
     charAt letters (random_index (rnd (6 * i + 1)) letters) @
     charAt numbers (random_index (rnd (6 * i + 2)) numbers) @
     charAt numbers (random_index (rnd (6 * i + 3)) numbers) @
     charAt numbers (random_index (rnd (6 * i + 4)) numbers) @
     charAt numbers (random_index (rnd (6 * i + 5)) numbers)"

text \<open>\<open>n.toString()\<close> for a natural number: its decimal digits.\<close>

function to_string :: "nat \<Rightarrow> string" where
  "to_string n =
     (if n < 10 then charAt numbers n else to_string (n div 10) @ charAt numbers (n mod 10))"
  by pat_completeness auto
termination
  by (relation "measure (\<lambda>n. n)") auto

text \<open>\<open>s.slice(-k)\<close>: the last \<open>k\<close> characters, the whole string when it is shorter.\<close>

definition slice_last :: "nat \<Rightarrow> string \<Rightarrow> string" where
  "slice_last k s = drop (length s - k) s"

definition fallback_code :: "nat \<Rightarrow> string" where
  "fallback_code now = ''OR'' @ slice_last 4 (to_string now)"

text \<open>
  The \<open>do ... while\<close> loop; \<open>attempts\<close> is the counter on entry of the pass. The lookup
  \<open>getOrderByCode\<close> writes to the storage, so the store is threaded through.
\<close>

function generate_loop :: "store \<Rightarrow> nat \<Rightarrow> (nat \<Rightarrow> double) \<Rightarrow> nat \<Rightarrow> string \<times> store" where
  "generate_loop st now rnd attempts =
     (let code = draw_code rnd attempts;
          attempts' = attempts + 1
      in if attempts' \<ge> maxAttempts then (fallback_code now, st)
         else (case getOrderByCode st now code of
                 (Some found, st') \<Rightarrow> generate_loop st' now rnd attempts'
               | (None, st') \<Rightarrow> (code, st')))"
  by pat_completeness auto
termination
  by (relation "measure (\<lambda>(st, now, rnd, attempts). maxAttempts - attempts)") auto

definition generateOrderCode :: "store \<Rightarrow> nat \<Rightarrow> (nat \<Rightarrow> double) \<Rightarrow> string \<times> store" where
  "generateOrderCode st now rnd = generate_loop st now rnd 0"

text \<open>Two uppercase letters followed by four digits.\<close>

definition valid_code :: "string \<Rightarrow> bool" where
  "valid_code s =
     (case s of
        [a, b, c, d, e, f] \<Rightarrow>
          a \<in> set letters \<and> b \<in> set letters \<and>
          c \<in> set numbers \<and> d \<in> set numbers \<and> e \<in> set numbers \<and> f \<in> set numbers
      | _ \<Rightarrow> False)"

subsection \<open>Example stores\<close>

definition empty_store :: store where
  "empty_store = \<lparr>localStorage = (\<lambda>key. None), sessionStorage = (\<lambda>key. None)\<rparr>"

text \<open>An order for one counter with two items, as \<open>saveOrder\<close> leaves it at instant 0.\<close>

definition sample_order :: order where
  "sample_order =
     \<lparr> order_code = Some ''AB1234'', otp_status = Some ''active'', created_at = Some 0,
       updated_at = Some 0, expires_at = Some 86400000, used_at = None,
       generated_by = Some ''http://localhost:5173'',
       items_by_counter =
         Some [(''Snacks'',
                [\<lparr>item_id = 1, item_name = ''Samosa'', quantity = 1, delivered = False\<rparr>,
                 \<lparr>item_id = 2, item_name = ''Tea'', quantity = 2, delivered = False\<rparr>])],
       counters_involved = Some [''Snacks''], counters_completed = Some [],
       is_complete = Some False \<rparr>"

text \<open>
  One storage key holding a used order \<open>AB1234\<close> and an order \<open>CD5678\<close> that expired at
  instant 50; no other key is set.
\<close>

definition used_and_expired_store :: store where
  "used_and_expired_store =
     empty_store\<lparr>localStorage := (\<lambda>key. None)(''kgbites_orders'' \<mapsto>
       [(''AB1234'', sample_order\<lparr>otp_status := Some ''used'', used_at := Some 60\<rparr>),
        (''CD5678'', sample_order\<lparr>order_code := Some ''CD5678'', expires_at := Some 50\<rparr>)])\<rparr>"

text \<open>One storage key holding only the order \<open>CD5678\<close> that expired at instant 50.\<close>

definition expired_only_store :: store where
  "expired_only_store =
     empty_store\<lparr>localStorage := (\<lambda>key. None)(''kgbites_orders'' \<mapsto>
       [(''CD5678'', sample_order\<lparr>order_code := Some ''CD5678'', expires_at := Some 50\<rparr>)])\<rparr>"

text \<open>The storage after one call of \<open>saveOrder\<close> at instant 0, from empty storage.\<close>

definition saved_store :: store where
  "saved_store = snd (saveOrder empty_store 0 ''http://localhost:5173'' sample_order)"

subsection \<open>The merged view of the storage\<close>

text \<open>
  What the reading part of \<open>getAllOrders\<close> computes, as maps: the five keys are merged in
  the order of \<open>allKeys\<close>, then the backup, a later entry replacing an earlier one;
  \<open>live\<close> drops the expired orders; \<open>local_copy\<close> is \<open>this.getAllOrders()[orderCode]\<close>.
\<close>

definition slot_map :: "orders option \<Rightarrow> (string \<rightharpoonup> order)" where
  "slot_map slot = (case slot of Some m \<Rightarrow> map_of m | None \<Rightarrow> Map.empty)"

definition merged_map :: "store \<Rightarrow> (string \<rightharpoonup> order)" where
  "merged_map st =
     slot_map (localStorage st ''kgbites_orders'') ++
     slot_map (localStorage st ''kgbites_shared_orders'') ++
     slot_map (localStorage st ''kgbites_student_orders'') ++
     slot_map (localStorage st ''kgbites_staff_orders'') ++
     slot_map (localStorage st ''kgbites_cross_port_orders'') ++
     slot_map (sessionStorage st ''kgbites_orders_backup'')"

definition live :: "nat \<Rightarrow> (string \<rightharpoonup> order) \<Rightarrow> (string \<rightharpoonup> order)" where
  "live now f = (\<lambda>c. case f c of Some ord \<Rightarrow> if is_expired now ord then None else Some ord
                              | None \<Rightarrow> None)"

definition local_copy :: "store \<Rightarrow> nat \<Rightarrow> string \<Rightarrow> order option" where
  "local_copy st now orderCode = map_of (fst (getAllOrders st now)) orderCode"

subsection \<open>The stored copies of an order\<close>

text \<open>
  The six places \<open>getAllOrders\<close> reads, and the copies of the order with a given code that
  they hold.
\<close>

definition slots :: "store \<Rightarrow> orders option list" where
  "slots st = map (localStorage st) allKeys @ [sessionStorage st ''kgbites_orders_backup'']"

definition copies :: "store \<Rightarrow> string \<Rightarrow> order list" where
  "copies st c = List.map_filter (\<lambda>slot. slot_map slot c) (slots st)"

subsection \<open>Predicates and examples for the invariants\<close>

text \<open>Every stored copy of the order \<open>c\<close> carries an \<open>otp_status\<close> and expires at \<open>E\<close>.\<close>

definition expiry_fixed :: "store \<Rightarrow> string \<Rightarrow> nat \<Rightarrow> bool" where
  "expiry_fixed st c E
   = list_all (\<lambda>ord. truthy (otp_status ord) \<and> expires_at ord = Some E) (copies st c)"




text \<open>A run of \<open>markCounterDelivered\<close> calls, each with its instant, code, counter and ids.\<close>

fun deliveries :: "store \<Rightarrow> (nat \<times> string \<times> string \<times> nat list) list \<Rightarrow> store" where
  "deliveries st [] = st"
| "deliveries st ((now, orderCode, counterName, deliveredItems) # calls) =
     deliveries (snd (markCounterDelivered st now orderCode counterName deliveredItems)) calls"

text \<open>The order data of \<open>createOrderFromCart\<close> for an empty cart.\<close>

definition empty_cart_order :: order where
  "empty_cart_order =
     no_fields\<lparr> order_code := Some ''EC0001'', created_at := Some 0,
                 items_by_counter := Some [], counters_involved := Some [],
                 counters_completed := Some [], is_complete := Some False \<rparr>"

text \<open>\<open>is_complete\<close> agrees with the counters: true exactly when all keys are completed.\<close>

definition completion_consistent :: "order \<Rightarrow> bool" where
  "completion_consistent ord
   = ((is_complete ord = Some True)
      = list_all (\<lambda>counter. counter \<in> set (completed_list ord)) (counter_keys ord))"

subsection \<open>Examples for the code generator\<close>


text \<open>
  \<open>Math.random()\<close> giving the double 0.7 at every call, which is \<open>6305039478318694 / 2 ^ 53\<close>:
  each draw is \<open>SS7777\<close>, the double product \<open>0.7 * 10\<close> being 7. The store holds an active
  order under \<open>SS6666\<close> only.
\<close>

definition seven_tenths_draws :: "nat \<Rightarrow> double" where
  "seven_tenths_draws k = (6305039478318694, 53)"

definition one_code_store :: store where
  "one_code_store =
     empty_store\<lparr>localStorage := (\<lambda>key. None)(''kgbites_orders'' \<mapsto>
       [(''SS6666'', sample_order\<lparr>order_code := Some ''SS6666''\<rparr>)])\<rparr>"


subsection \<open>Runs of deliveries on one order\<close>

text \<open>The calls of a run on the order \<open>orderCode\<close>: the \<open>i\<close>-th delivery is made at the \<open>i\<close>-th instant.\<close>

definition calls_on ::
  "string \<Rightarrow> nat list \<Rightarrow> (string \<times> nat list) list \<Rightarrow> (nat \<times> string \<times> string \<times> nat list) list" where
  "calls_on orderCode ts ds =
     map (\<lambda>(t, counterName, ids). (t, orderCode, counterName, ids)) (zip ts ds)"

text \<open>Equal records, \<open>counters_completed\<close> being compared as a set.\<close>

definition same_record :: "order \<Rightarrow> order \<Rightarrow> bool" where
  "same_record a b =
     (items_by_counter a = items_by_counter b \<and>
      set (completed_list a) = set (completed_list b) \<and>
      is_complete a = is_complete b \<and>
      order_code a = order_code b \<and> otp_status a = otp_status b \<and>
      created_at a = created_at b \<and> updated_at a = updated_at b \<and>
      expires_at a = expires_at b \<and> used_at a = used_at b \<and>
      generated_by a = generated_by b \<and> counters_involved a = counters_involved b)"

text \<open>
  What the call \<open>(t, counter, ids)\<close> stores: the order after \<open>deliver_order\<close>, stamped by
  \<open>updateOrder\<close>.
\<close>

definition deliver_at :: "nat \<times> string \<times> nat list \<Rightarrow> order \<Rightarrow> order" where
  "deliver_at td ord =
     (deliver_order (fst (snd td)) (snd (snd td)) ord)\<lparr>updated_at := Some (fst td)\<rparr>"

text \<open>The effect of \<open>mark_group\<close> on \<open>items_by_counter\<close> alone.\<close>

definition mark_in_groups ::
  "string \<times> nat list \<Rightarrow> (string \<times> item list) list option \<Rightarrow> (string \<times> item list) list option" where
  "mark_in_groups d g =
     (case g of
        None \<Rightarrow> None
      | Some groups \<Rightarrow>
          (case map_of groups (fst d) of
             None \<Rightarrow> Some groups
           | Some its \<Rightarrow> Some (AList.update (fst d) (map (mark_item (snd d)) its) groups)))"

text \<open>An order for two counters, as \<open>saveOrder\<close> leaves it at instant 0, and its storage.\<close>

definition two_counter_order :: order where
  "two_counter_order =
     \<lparr> order_code = Some ''XY0001'', otp_status = Some ''active'', created_at = Some 0,
       updated_at = Some 0, expires_at = Some 86400000, used_at = None,
       generated_by = Some ''http://localhost:5173'',
       items_by_counter =
         Some [(''Snacks'',
                [\<lparr>item_id = 1, item_name = ''Samosa'', quantity = 1, delivered = False\<rparr>,
                 \<lparr>item_id = 2, item_name = ''Tea'', quantity = 2, delivered = False\<rparr>]),
               (''Meals'',
                [\<lparr>item_id = 3, item_name = ''Curd Rice'', quantity = 1, delivered = False\<rparr>])],
       counters_involved = Some [''Snacks'', ''Meals''], counters_completed = Some [],
       is_complete = Some False \<rparr>"

definition two_counter_store :: store where
  "two_counter_store = snd (saveOrder empty_store 0 ''http://localhost:5173'' two_counter_order)"

subsection \<open>Basic facts\<close>

lemma map_of_fold_update:
  "map_of (fold (\<lambda>k acc. case map_of b k of Some v \<Rightarrow> AList.update k v acc | None \<Rightarrow> acc)
             ks a) x
   = (if x \<in> set ks \<and> map_of b x \<noteq> None then map_of b x else map_of a x)"
  by (induction ks arbitrary: a) (auto simp: AList.update_conv' split: option.splits)

lemma map_of_spread: "map_of (spread a b) = map_of a ++ map_of b"
proof
  fix x
  have "x \<in> set (map fst b) \<longleftrightarrow> map_of b x \<noteq> None"
    by (simp add: map_of_eq_None_iff)
  then show "map_of (spread a b) x = (map_of a ++ map_of b) x"
    unfolding spread_def map_of_fold_update
    by (auto simp: map_add_def split: option.splits)
qed

lemma map_of_purge_fold:
  "map_of (fold (\<lambda>orderCode acc.
             case map_of acc orderCode of
               Some ord \<Rightarrow> if is_expired now ord then AList.delete orderCode acc else acc
             | None \<Rightarrow> acc) ks acc) c
   = (if c \<in> set ks then live now (map_of acc) c else map_of acc c)"
  by (induction ks arbitrary: acc)
     (auto simp: live_def AList.delete_conv' split: option.splits)

lemma map_of_purge_expired: "map_of (purge_expired now m) = live now (map_of m)"
proof
  fix c
  have "c \<notin> set (map fst m) \<Longrightarrow> map_of m c = None"
    by (simp add: map_of_eq_None_iff)
  then show "map_of (purge_expired now m) c = live now (map_of m) c"
    unfolding purge_expired_def map_of_purge_fold
    by (auto simp: live_def)
qed

lemma map_of_read_fold:
  "map_of (fold (\<lambda>key allOrders. case ls key of Some orders \<Rightarrow> spread allOrders orders
                                   | None \<Rightarrow> allOrders) ks acc)
   = fold (\<lambda>key f. f ++ slot_map (ls key)) ks (map_of acc)"
  by (induction ks arbitrary: acc) (auto simp: slot_map_def map_of_spread split: option.splits)

lemma map_of_merged: "map_of (read_backup st (read_keys st)) = merged_map st"
  unfolding read_backup_def read_keys_def merged_map_def
  by (simp add: map_of_read_fold map_of_spread allKeys_def slot_map_def split: option.splits)

lemma view_getAllOrders: "map_of (fst (getAllOrders st now)) = live now (merged_map st)"
  by (simp add: getAllOrders_def Let_def map_of_purge_expired map_of_merged)

lemma local_copy_live: "local_copy st now c = live now (merged_map st) c"
  by (simp add: local_copy_def view_getAllOrders)

lemma fold_write_apply:
  "fold (\<lambda>key ls. ls(key \<mapsto> os)) ks ls k = (if k \<in> set ks then Some os else ls k)"
  by (induction ks arbitrary: ls) auto

lemma localStorage_write_keys:
  "localStorage (write_keys ks os st) k = (if k \<in> set ks then Some os else localStorage st k)"
  by (simp add: write_keys_def fold_write_apply)

lemma sessionStorage_write_keys: "sessionStorage (write_keys ks os st) = sessionStorage st"
  by (simp add: write_keys_def)

lemma localStorage_write_backup: "localStorage (write_backup os st) = localStorage st"
  by (simp add: write_backup_def)

lemma sessionStorage_write_backup:
  "sessionStorage (write_backup os st) k
   = (if k = ''kgbites_orders_backup'' then Some os else sessionStorage st k)"
  by (simp add: write_backup_def)

lemma map_add_same: "(f :: 'a \<rightharpoonup> 'b) ++ f = f"
  by (auto simp: map_add_def fun_eq_iff split: option.splits)

lemma merged_map_write_keys:
  "merged_map (write_keys allKeys os st)
   = map_of os ++ slot_map (sessionStorage st ''kgbites_orders_backup'')"
  by (simp add: merged_map_def localStorage_write_keys sessionStorage_write_keys allKeys_def
       slot_map_def map_add_same)

lemma merged_map_write_all:
  "merged_map (write_backup os (write_keys allKeys os st)) = map_of os"
  by (simp add: merged_map_def localStorage_write_keys sessionStorage_write_backup
       localStorage_write_backup allKeys_def slot_map_def map_add_same)

lemma snd_getAllOrders:
  "snd (getAllOrders st now)
   = (if fst (getAllOrders st now) = [] then st
      else write_keys allKeys (fst (getAllOrders st now)) st)"
  by (simp add: getAllOrders_def Let_def)

lemma live_idem: "live now (live now f) = live now f"
  by (auto simp: live_def fun_eq_iff split: option.splits)

lemma live_getAllOrders:
  "live now (merged_map (snd (getAllOrders st now))) = live now (merged_map st)"
proof (cases "fst (getAllOrders st now) = []")
  case True
  then show ?thesis by (simp add: snd_getAllOrders)
next
  case False
  have "live now (live now (merged_map st) ++ slot_map (sessionStorage st ''kgbites_orders_backup''))
        = live now (merged_map st)"
    by (auto simp: live_def fun_eq_iff merged_map_def map_add_def split: option.splits)
  with False show ?thesis
    by (simp add: snd_getAllOrders merged_map_write_keys view_getAllOrders)
qed

lemma updateOrder_found:
  assumes "local_copy st now c = Some ord"
  shows "fst (updateOrder st now c u) = True"
    and "merged_map (snd (updateOrder st now c u))
         = (live now (merged_map st))(c \<mapsto> (spread_order ord u)\<lparr>updated_at := Some now\<rparr>)"
  using assms
  by (simp_all add: updateOrder_def local_copy_def split_beta Let_def merged_map_write_all
        AList.update_conv' view_getAllOrders)

lemma updateOrder_missing:
  assumes "local_copy st now c = None"
  shows "updateOrder st now c u = (False, snd (getAllOrders st now))"
  using assms by (simp add: updateOrder_def local_copy_def split_beta)

lemma local_copy_getAllOrders:
  "local_copy (snd (getAllOrders st now)) now c = local_copy st now c"
  by (simp add: local_copy_live live_getAllOrders)

lemma local_copy_not_expired: "local_copy st now c = Some ord \<Longrightarrow> \<not> is_expired now ord"
  by (auto simp: local_copy_live live_def split: option.splits if_splits)

lemma spread_order_upgrade: "spread_order ord (upgrade_legacy now ord) = upgrade_legacy now ord"
  by (cases ord) (auto simp: spread_order_def upgrade_legacy_def or_else_def split: option.splits)

lemma not_expired_upgrade: "\<not> is_expired now (upgrade_legacy now ord)"
  by (simp add: is_expired_def upgrade_legacy_def)

lemma getOrderByCode_missing:
  assumes "local_copy st now c = None"
  shows "getOrderByCode st now c = (None, snd (getAllOrders st now))"
  using assms by (simp add: getOrderByCode_def local_copy_def split_beta)

lemma getOrderByCode_current:
  assumes "local_copy st now c = Some ord" and "truthy (otp_status ord)"
  shows "getOrderByCode st now c
         = (if otp_status ord = Some ''used'' then None else Some ord, snd (getAllOrders st now))"
  using assms local_copy_not_expired[OF assms(1)]
  by (simp add: getOrderByCode_def local_copy_def split_beta)

lemma getOrderByCode_legacy:
  assumes "local_copy st now c = Some ord" and "\<not> truthy (otp_status ord)"
  shows "fst (getOrderByCode st now c) = Some (upgrade_legacy now ord)"
    and "merged_map (snd (getOrderByCode st now c))
         = (live now (merged_map st))(c \<mapsto> (upgrade_legacy now ord)\<lparr>updated_at := Some now\<rparr>)"
proof -
  have up: "otp_status (upgrade_legacy now ord) = Some ''active''"
    by (simp add: upgrade_legacy_def)
  have eq: "getOrderByCode st now c
      = (Some (upgrade_legacy now ord),
         snd (updateOrder (snd (getAllOrders st now)) now c (upgrade_legacy now ord)))"
    using assms up not_expired_upgrade[of now ord]
    by (simp add: getOrderByCode_def local_copy_def split_beta Let_def)
  show "fst (getOrderByCode st now c) = Some (upgrade_legacy now ord)"
    by (simp add: eq)
  have "local_copy (snd (getAllOrders st now)) now c = Some ord"
    using assms(1) by (simp add: local_copy_getAllOrders)
  from updateOrder_found(2)[OF this]
  show "merged_map (snd (getOrderByCode st now c))
         = (live now (merged_map st))(c \<mapsto> (upgrade_legacy now ord)\<lparr>updated_at := Some now\<rparr>)"
    by (simp add: eq live_getAllOrders spread_order_upgrade)
qed


subsection \<open>Evaluating the example stores\<close>

lemmas view_eval = local_copy_live map_of_merged merged_map_def slot_map_def live_def
  is_expired_def truthy_def empty_store_def sample_order_def

lemma used_and_expired_copies:
  "local_copy used_and_expired_store 100 ''AB1234''
     = Some (sample_order\<lparr>otp_status := Some ''used'', used_at := Some 60\<rparr>)"
  "local_copy used_and_expired_store 100 ''CD5678'' = None"
  "local_copy used_and_expired_store 100 ''ZZ0000'' = None"
  by (simp_all add: view_eval used_and_expired_store_def)

section \<open>Lookup outcomes\<close>

lemma getOrderByCode_None_cases:
  "fst (getOrderByCode st now c) = None \<longleftrightarrow>
     (case map_of (read_backup st (read_keys st)) c of
        None \<Rightarrow> True
      | Some ord \<Rightarrow> is_expired now ord \<or> otp_status ord = Some ''used'')"
proof (cases "local_copy st now c")
  case None
  then show ?thesis
    by (auto simp: getOrderByCode_missing local_copy_live live_def map_of_merged
             split: option.splits if_splits)
next
  case (Some ord)
  then have m: "map_of (read_backup st (read_keys st)) c = Some ord" "\<not> is_expired now ord"
    by (auto simp: local_copy_live live_def map_of_merged split: option.splits if_splits)
  show ?thesis
  proof (cases "truthy (otp_status ord)")
    case True
    with Some m show ?thesis by (simp add: getOrderByCode_current)
  next
    case False
    then have "otp_status ord \<noteq> Some ''used''" by (auto simp: truthy_def)
    with Some m False show ?thesis by (simp add: getOrderByCode_legacy(1))
  qed
qed

text \<open>
  C4, as the code has it. For a code that is no property name of \<open>Object.prototype\<close> and a
  clock within the range of \<open>Date\<close>, \<open>getOrderByCode\<close> answers \<open>null\<close> exactly when the
  merged storage has no order under the code, or the order there has expired, or its
  \<open>otp_status\<close> is \<open>used\<close>. The three outcomes are one value; an order is returned in every
  other case. (For a name such as \<open>constructor\<close> the source finds the inherited property
  where the storage has no order, and the answer is not \<open>null\<close>; beyond the range of
  \<open>Date\<close> the upgrade of a legacy order throws and the answer is \<open>null\<close>.)
\<close>

theorem getOrderByCode_null_outcomes:
  assumes "own_name c" and "in_date_range now"
  shows "fst (getOrderByCode st now c) = None \<longleftrightarrow>
     (case map_of (read_backup st (read_keys st)) c of
        None \<Rightarrow> True
      | Some ord \<Rightarrow> is_expired now ord \<or> otp_status ord = Some ''used'')"
  by (rule getOrderByCode_None_cases)

theorem getOrderByCode_null_outcomes_witness:
  "own_name ''CD5678'' \<and> in_date_range 100 \<and>
   fst (getOrderByCode used_and_expired_store 100 ''CD5678'') = None"
proof -
  have n: "own_name ''CD5678''"
    by (simp add: own_name_def object_prototype_names_def)
  have d: "in_date_range 100"
    by (simp add: in_date_range_def max_time_def)
  have "case map_of (read_backup used_and_expired_store (read_keys used_and_expired_store))
               ''CD5678'' of
          None \<Rightarrow> True
        | Some ord \<Rightarrow> is_expired 100 ord \<or> otp_status ord = Some ''used''"
    by (simp add: view_eval used_and_expired_store_def)
  with n d show ?thesis
    by (simp only: getOrderByCode_null_outcomes[OF n d])
qed

text \<open>
  C4 as stated fails: at instant 100 the used order \<open>AB1234\<close>, the expired order \<open>CD5678\<close>
  and the absent code \<open>ZZ0000\<close> get the same answer.
\<close>

theorem getOrderByCode_outcomes_counterexample:
  "map_option otp_status
     (map_of (read_backup used_and_expired_store (read_keys used_and_expired_store)) ''AB1234'')
     = Some (Some ''used'') \<and>
   map_option (is_expired 100)
     (map_of (read_backup used_and_expired_store (read_keys used_and_expired_store)) ''CD5678'')
     = Some True \<and>
   map_of (read_backup used_and_expired_store (read_keys used_and_expired_store)) ''ZZ0000''
     = None \<and>
   fst (getOrderByCode used_and_expired_store 100 ''AB1234'')
     = fst (getOrderByCode used_and_expired_store 100 ''ZZ0000'') \<and>
   fst (getOrderByCode used_and_expired_store 100 ''CD5678'')
     = fst (getOrderByCode used_and_expired_store 100 ''ZZ0000'')"
proof -
  have "truthy (otp_status (sample_order\<lparr>otp_status := Some ''used'', used_at := Some 60\<rparr>))"
    by (simp add: truthy_def)
  from getOrderByCode_current[OF used_and_expired_copies(1) this]
  have "fst (getOrderByCode used_and_expired_store 100 ''AB1234'') = None"
    by simp
  then show ?thesis
    by (simp add: getOrderByCode_missing used_and_expired_copies(2,3))
       (simp add: view_eval used_and_expired_store_def)
qed

section \<open>What getAllOrders leaves in the storage\<close>

lemma distinct_fold_update:
  "distinct (map fst a) \<Longrightarrow>
   distinct (map fst (fold (\<lambda>k acc. case map_of b k of Some v \<Rightarrow> AList.update k v acc
                                         | None \<Rightarrow> acc) ks a))"
  by (induction ks arbitrary: a) (auto simp: AList.distinct_update split: option.splits)

lemma distinct_spread: "distinct (map fst a) \<Longrightarrow> distinct (map fst (spread a b))"
  unfolding spread_def by (rule distinct_fold_update)

lemma distinct_read_fold:
  "distinct (map fst acc) \<Longrightarrow>
   distinct (map fst (fold (\<lambda>key allOrders. case ls key of Some orders \<Rightarrow> spread allOrders orders
                                   | None \<Rightarrow> allOrders) ks acc))"
  by (induction ks arbitrary: acc) (auto simp: distinct_spread split: option.splits)

lemma distinct_merged: "distinct (map fst (read_backup st (read_keys st)))"
  unfolding read_backup_def read_keys_def
  by (auto simp: distinct_spread distinct_read_fold split: option.splits)

lemma distinct_purge_fold:
  "distinct (map fst acc) \<Longrightarrow>
   distinct (map fst (fold (\<lambda>orderCode acc.
             case map_of acc orderCode of
               Some ord \<Rightarrow> if is_expired now ord then AList.delete orderCode acc else acc
             | None \<Rightarrow> acc) ks acc))"
  by (induction ks arbitrary: acc) (auto simp: AList.distinct_delete split: option.splits)

lemma distinct_getAllOrders: "distinct (map fst (fst (getAllOrders st now)))"
  by (simp add: getAllOrders_def Let_def purge_expired_def distinct_purge_fold distinct_merged)

lemma getAllOrders_entries:
  "(c, ord) \<in> set (fst (getAllOrders st now)) \<longleftrightarrow> local_copy st now c = Some ord"
  by (simp add: local_copy_def distinct_getAllOrders)

lemma local_copy_nonempty: "local_copy st now c = Some ord \<Longrightarrow> fst (getAllOrders st now) \<noteq> []"
  by (auto simp: local_copy_def)

text \<open>
  C10, as the code has it: \<open>getAllOrders\<close> returns the merge of the five keys and the backup
  without the expired orders, each code once. When that object is not empty, the five
  keys are overwritten with it and nothing else changes: the backup in \<open>sessionStorage\<close>
  is read, never written. When it is empty, the storage is left as it was.
\<close>

theorem getAllOrders_consolidates:
  "getAllOrders st now = (os, st') \<Longrightarrow>
     distinct (map fst os) \<and>
     (\<forall>c. map_of os c = live now (merged_map st) c) \<and>
     (\<forall>(c, ord) \<in> set os. \<not> is_expired now ord) \<and>
     (os \<noteq> [] \<longrightarrow> (\<forall>key \<in> set allKeys. localStorage st' key = Some os)
                  \<and> (\<forall>key. key \<notin> set allKeys \<longrightarrow> localStorage st' key = localStorage st key)
                  \<and> sessionStorage st' = sessionStorage st) \<and>
     (os = [] \<longrightarrow> st' = st)"
proof -
  assume "getAllOrders st now = (os, st')"
  then have os: "os = fst (getAllOrders st now)" and st': "st' = snd (getAllOrders st now)"
    by simp_all
  have 1: "distinct (map fst os)" by (simp add: os distinct_getAllOrders)
  have 2: "\<forall>c. map_of os c = live now (merged_map st) c"
    by (simp add: os view_getAllOrders)
  have 3: "\<forall>(c, ord) \<in> set os. \<not> is_expired now ord"
    using local_copy_not_expired by (auto simp: os getAllOrders_entries)
  have 4: "os \<noteq> [] \<longrightarrow> (\<forall>key \<in> set allKeys. localStorage st' key = Some os)
                   \<and> (\<forall>key. key \<notin> set allKeys \<longrightarrow> localStorage st' key = localStorage st key)
                   \<and> sessionStorage st' = sessionStorage st"
    by (simp add: os st' snd_getAllOrders localStorage_write_keys sessionStorage_write_keys)
  have 5: "os = [] \<longrightarrow> st' = st"
    by (simp add: os st' snd_getAllOrders)
  from 1 2 3 4 5 show ?thesis by blast
qed

theorem getAllOrders_consolidates_witness:
  "fst (getAllOrders used_and_expired_store 100) \<noteq> [] \<and>
   localStorage (snd (getAllOrders used_and_expired_store 100)) ''kgbites_staff_orders''
     = Some (fst (getAllOrders used_and_expired_store 100)) \<and>
   map_of (fst (getAllOrders used_and_expired_store 100)) ''CD5678'' = None"
proof -
  have ne: "fst (getAllOrders used_and_expired_store 100) \<noteq> []"
    by (rule local_copy_nonempty[OF used_and_expired_copies(1)])
  have "getAllOrders used_and_expired_store 100
        = (fst (getAllOrders used_and_expired_store 100),
           snd (getAllOrders used_and_expired_store 100))"
    by simp
  from getAllOrders_consolidates[OF this] ne
  have "localStorage (snd (getAllOrders used_and_expired_store 100)) ''kgbites_staff_orders''
          = Some (fst (getAllOrders used_and_expired_store 100))"
    and "map_of (fst (getAllOrders used_and_expired_store 100)) ''CD5678''
          = live 100 (merged_map used_and_expired_store) ''CD5678''"
    by (simp_all add: allKeys_def)
  with ne show ?thesis
    by (simp add: used_and_expired_copies(2)[unfolded local_copy_live])
qed

lemma expired_only_view: "fst (getAllOrders expired_only_store 100) = []"
proof -
  have "map_of (fst (getAllOrders expired_only_store 100)) = Map.empty"
    by (simp add: view_getAllOrders fun_eq_iff merged_map_def slot_map_def live_def is_expired_def
        expired_only_store_def empty_store_def sample_order_def)
  then show ?thesis by (cases "fst (getAllOrders expired_only_store 100)") auto
qed

text \<open>
  C10 as stated fails: with one expired order under one key, the call at instant 100 finds
  nothing live and writes nothing. Afterwards the first key still holds the expired order
  and the second key holds nothing, so the keys differ.
\<close>

theorem getAllOrders_counterexample:
  "fst (getAllOrders expired_only_store 100) = [] \<and>
   localStorage (snd (getAllOrders expired_only_store 100)) ''kgbites_orders''
     = Some [(''CD5678'', sample_order\<lparr>order_code := Some ''CD5678'', expires_at := Some 50\<rparr>)] \<and>
   is_expired 100 (sample_order\<lparr>order_code := Some ''CD5678'', expires_at := Some 50\<rparr>) \<and>
   localStorage (snd (getAllOrders expired_only_store 100)) ''kgbites_shared_orders'' = None"
  by (simp add: expired_only_view snd_getAllOrders)
     (simp add: expired_only_store_def empty_store_def is_expired_def)

section \<open>markOrderAsUsed\<close>

lemma saveOrder_merged:
  "merged_map (snd (saveOrder st now origin orderData))
   = (live now (merged_map st))(key_of (order_code orderData) \<mapsto>
        orderData\<lparr> created_at := Some now, updated_at := Some now,
                    otp_status := Some ''active'', generated_by := Some origin,
                    expires_at := Some (now + day_ms) \<rparr>)"
  by (simp add: saveOrder_def split_beta Let_def merged_map_write_all AList.update_conv'
        view_getAllOrders)

lemma map_add_upd_covered:
  "m c = Some x \<Longrightarrow> m(c \<mapsto> y) ++ m = m"
  by (auto simp: map_add_def fun_eq_iff split: option.splits)

lemma markOrderAsUsed_active:
  assumes "local_copy st now c = Some ord" and "otp_status ord = Some ''active''"
  shows "markOrderAsUsed st now c
         = (True, write_keys [''kgbites_orders'', ''kgbites_shared_orders'']
                    (AList.update c (ord\<lparr>otp_status := Some ''used'', used_at := Some now\<rparr>)
                       (fst (getAllOrders st now)))
                    (snd (getAllOrders st now)))"
  using assms by (simp add: markOrderAsUsed_def local_copy_def split_beta Let_def)

lemma markOrderAsUsed_other:
  assumes "local_copy st now c = None \<or>
           (\<exists>ord. local_copy st now c = Some ord \<and> otp_status ord \<noteq> Some ''active'')"
  shows "markOrderAsUsed st now c = (False, snd (getAllOrders st now))"
  using assms by (auto simp: markOrderAsUsed_def local_copy_def split_beta Let_def)

lemma markOrderAsUsed_overridden:
  "merged_map (snd (markOrderAsUsed st now c)) = merged_map (snd (getAllOrders st now))"
proof (cases "\<exists>ord. local_copy st now c = Some ord \<and> otp_status ord = Some ''active''")
  case False
  then have "local_copy st now c = None \<or>
           (\<exists>ord. local_copy st now c = Some ord \<and> otp_status ord \<noteq> Some ''active'')"
    by (cases "local_copy st now c") auto
  then show ?thesis by (simp add: markOrderAsUsed_other)
next
  case True
  then obtain ord where o: "local_copy st now c = Some ord" "otp_status ord = Some ''active''"
    by blast
  let ?view = "fst (getAllOrders st now)"
  have ne: "?view \<noteq> []" by (rule local_copy_nonempty[OF o(1)])
  have v: "map_of ?view c = Some ord" using o(1) by (simp add: local_copy_def)
  show ?thesis
    using ne map_add_upd_covered[of "map_of ?view" c ord, OF v]
    by (simp add: markOrderAsUsed_active[OF o] snd_getAllOrders merged_map_def
          localStorage_write_keys sessionStorage_write_keys allKeys_def slot_map_def
          AList.update_conv' map_add_same)
qed

lemma merged_empty_store: "merged_map empty_store = Map.empty"
  by (simp add: merged_map_def slot_map_def empty_store_def)

lemma live_empty: "live now Map.empty = Map.empty"
  by (simp add: live_def)

lemma saved_store_merged: "merged_map saved_store = [''AB1234'' \<mapsto> sample_order]"
  unfolding saved_store_def saveOrder_merged merged_empty_store live_empty
  by (simp add: key_of_def sample_order_def day_ms_def)

lemma saved_copy: "local_copy saved_store 5 ''AB1234'' = Some sample_order"
  unfolding local_copy_live saved_store_merged
  by (simp add: live_def is_expired_def sample_order_def)

text \<open>
  C9 fails on the code. \<open>markOrderAsUsed\<close> writes the used order under two keys only; the
  three later keys still hold the copy that its own call of \<open>getAllOrders\<close> has just
  written, and the merge lets them win. After a call that answers \<open>true\<close> for the active
  order \<open>AB1234\<close>, the order read back is the active one, without \<open>used_at\<close>, and a second
  call answers \<open>true\<close> again.
\<close>

theorem markOrderAsUsed_lost_update:
  "fst (markOrderAsUsed saved_store 5 ''AB1234'') = True \<and>
   local_copy (snd (markOrderAsUsed saved_store 5 ''AB1234'')) 5 ''AB1234'' = Some sample_order \<and>
   otp_status sample_order = Some ''active'' \<and>
   used_at sample_order = None \<and>
   fst (markOrderAsUsed (snd (markOrderAsUsed saved_store 5 ''AB1234'')) 5 ''AB1234'') = True"
proof -
  have act: "otp_status sample_order = Some ''active''" "used_at sample_order = None"
    by (simp_all add: sample_order_def)
  have 1: "fst (markOrderAsUsed saved_store 5 ''AB1234'') = True"
    by (simp add: markOrderAsUsed_active[OF saved_copy act(1)])
  have 2: "local_copy (snd (markOrderAsUsed saved_store 5 ''AB1234'')) 5 ''AB1234''
           = Some sample_order"
    using saved_copy
    by (simp add: local_copy_live markOrderAsUsed_overridden live_getAllOrders)
  have 3: "fst (markOrderAsUsed (snd (markOrderAsUsed saved_store 5 ''AB1234'')) 5 ''AB1234'')
           = True"
    by (simp add: markOrderAsUsed_active[OF 2 act(1)])
  from 1 2 3 act show ?thesis by simp
qed

section \<open>syncOrderStatusFromServer\<close>

lemma local_copy_updateOrder:
  assumes "local_copy st now c = Some ord"
  shows "local_copy (snd (updateOrder st now c u)) now c'
         = (if c' = c
            then (if is_expired now ((spread_order ord u)\<lparr>updated_at := Some now\<rparr>) then None
                  else Some ((spread_order ord u)\<lparr>updated_at := Some now\<rparr>))
            else local_copy st now c')"
  unfolding local_copy_live updateOrder_found(2)[OF assms]
  by (auto simp: live_def split: option.splits)

lemma sync_unfold:
  "syncOrderStatusFromServer st now c res
   = (let st2 = (if status res = Some ''used'' then
                   snd (updateOrder (snd (getAllOrders st now)) now c
                      (no_fields\<lparr> otp_status := Some ''used'',
                                  is_complete := Some True,
                                  counters_completed :=
                                    Some (involved (case local_copy st now c of Some cur \<Rightarrow> cur
                                                    | None \<Rightarrow> no_fields)),
                                  used_at := Some (case res_used_at res of
                                                     Some u \<Rightarrow> u | None \<Rightarrow> now) \<rparr>))
                 else if status res = Some ''expired'' then
                   snd (updateOrder (snd (getAllOrders st now)) now c
                          (no_fields\<lparr>otp_status := Some ''expired''\<rparr>))
                 else if status res = Some ''active'' then
                   snd (updateOrder (snd (getAllOrders st now)) now c
                          (no_fields\<lparr>otp_status := Some ''active''\<rparr>))
                 else snd (getAllOrders st now))
      in (local_copy st2 now c, snd (getAllOrders st2 now)))"
  by (simp add: syncOrderStatusFromServer_def local_copy_def split_beta Let_def)

lemma spread_used:
  "(spread_order cur (no_fields\<lparr> otp_status := Some s, is_complete := Some b,
                                  counters_completed := Some cs, used_at := Some u \<rparr>))
     \<lparr>updated_at := Some now\<rparr>
   = cur\<lparr> otp_status := Some s, is_complete := Some b, counters_completed := Some cs,
           used_at := Some u, updated_at := Some now \<rparr>"
  by (cases cur) (simp add: spread_order_def or_else_def no_fields_def)

lemma spread_status:
  "(spread_order cur (no_fields\<lparr>otp_status := Some s\<rparr>))\<lparr>updated_at := Some now\<rparr>
   = cur\<lparr>otp_status := Some s, updated_at := Some now\<rparr>"
  by (cases cur) (simp add: spread_order_def or_else_def no_fields_def)

lemma sync_missing:
  assumes "local_copy st now c = None"
  shows "fst (syncOrderStatusFromServer st now c res) = None"
    and "local_copy (snd (syncOrderStatusFromServer st now c res)) now c' = local_copy st now c'"
    and "snd (syncOrderStatusFromServer st now c res)
         = snd (getAllOrders (snd (getAllOrders (snd (getAllOrders st now)) now)) now)
         \<or> snd (syncOrderStatusFromServer st now c res)
         = snd (getAllOrders (snd (getAllOrders st now)) now)"
proof -
  have m: "local_copy (snd (getAllOrders st now)) now c = None"
    using assms by (simp add: local_copy_getAllOrders)
  note upd = updateOrder_missing[OF m]
  show "fst (syncOrderStatusFromServer st now c res) = None"
    unfolding sync_unfold Let_def using assms
    by (simp add: upd local_copy_getAllOrders)
  show "local_copy (snd (syncOrderStatusFromServer st now c res)) now c' = local_copy st now c'"
    unfolding sync_unfold Let_def
    by (simp add: upd local_copy_getAllOrders)
  show "snd (syncOrderStatusFromServer st now c res)
         = snd (getAllOrders (snd (getAllOrders (snd (getAllOrders st now)) now)) now)
         \<or> snd (syncOrderStatusFromServer st now c res)
         = snd (getAllOrders (snd (getAllOrders st now)) now)"
    unfolding sync_unfold Let_def
    by (simp add: upd)
qed

text \<open>
  C7, as the code has it, for a clock within the range of \<open>Date\<close>. For a local copy \<open>cur\<close> of
  the order that \<open>getAllOrders\<close> returns (stored and not past its \<open>expires_at\<close>),
  \<open>syncOrderStatusFromServer\<close> answers with the copy as it is and leaves every local copy as
  it was when the server says \<open>not_found\<close> or \<open>error\<close>. On \<open>used\<close>, \<open>expired\<close> and \<open>active\<close>
  it overwrites \<open>otp_status\<close> (and \<open>updated_at\<close>); on \<open>used\<close> it also sets \<open>is_complete\<close>,
  puts all involved counters in \<open>counters_completed\<close> and sets \<open>used_at\<close>. The answer is the
  copy then stored, and no other order changes. Where \<open>getAllOrders\<close> returns no copy under
  the code (none is stored, or the stored one is past its \<open>expires_at\<close>) and the code is no
  property name of \<open>Object.prototype\<close>, the answer is \<open>null\<close> whatever the server says, and
  every local copy is left as it was.
\<close>

theorem syncOrderStatusFromServer_overwrites:
  "in_date_range now \<Longrightarrow>
   syncOrderStatusFromServer st now c res = (r, st') \<Longrightarrow>
     (\<forall>cur. local_copy st now c = Some cur \<longrightarrow>
        (status res = Some ''not_found'' \<or> status res = Some ''error'' \<longrightarrow>
           r = Some cur \<and> (\<forall>c'. local_copy st' now c' = local_copy st now c')) \<and>
        (status res = Some ''used'' \<longrightarrow>
           r = Some (cur\<lparr> otp_status := Some ''used'', is_complete := Some True,
                           counters_completed := Some (involved cur),
                           used_at := Some (case res_used_at res of Some u \<Rightarrow> u | None \<Rightarrow> now),
                           updated_at := Some now \<rparr>)) \<and>
        (status res = Some ''expired'' \<longrightarrow>
           r = Some (cur\<lparr>otp_status := Some ''expired'', updated_at := Some now\<rparr>)) \<and>
        (status res = Some ''active'' \<longrightarrow>
           r = Some (cur\<lparr>otp_status := Some ''active'', updated_at := Some now\<rparr>)) \<and>
        local_copy st' now c = r \<and>
        (\<forall>c'. c' \<noteq> c \<longrightarrow> local_copy st' now c' = local_copy st now c')) \<and>
     (own_name c \<and> local_copy st now c = None \<longrightarrow>
        r = None \<and> (\<forall>c'. local_copy st' now c' = local_copy st now c'))"
proof -
  assume run: "syncOrderStatusFromServer st now c res = (r, st')"
  have found: "(status res = Some ''not_found'' \<or> status res = Some ''error'' \<longrightarrow>
           r = Some cur \<and> (\<forall>c'. local_copy st' now c' = local_copy st now c')) \<and>
        (status res = Some ''used'' \<longrightarrow>
           r = Some (cur\<lparr> otp_status := Some ''used'', is_complete := Some True,
                           counters_completed := Some (involved cur),
                           used_at := Some (case res_used_at res of Some u \<Rightarrow> u | None \<Rightarrow> now),
                           updated_at := Some now \<rparr>)) \<and>
        (status res = Some ''expired'' \<longrightarrow>
           r = Some (cur\<lparr>otp_status := Some ''expired'', updated_at := Some now\<rparr>)) \<and>
        (status res = Some ''active'' \<longrightarrow>
           r = Some (cur\<lparr>otp_status := Some ''active'', updated_at := Some now\<rparr>)) \<and>
        local_copy st' now c = r \<and>
        (\<forall>c'. c' \<noteq> c \<longrightarrow> local_copy st' now c' = local_copy st now c')"
    if cur: "local_copy st now c = Some cur" for cur
  proof -
    have cur1: "local_copy (snd (getAllOrders st now)) now c = Some cur"
      using cur by (simp add: local_copy_getAllOrders)
    have live: "\<not> is_expired now cur" by (rule local_copy_not_expired[OF cur])
    note upd = local_copy_updateOrder[OF cur1]
    from run cur live[unfolded is_expired_def] show ?thesis
      unfolding sync_unfold Let_def
      by (auto simp: upd spread_used spread_status local_copy_getAllOrders is_expired_def
               split: if_splits)
  qed
  have missing: "r = None \<and> (\<forall>c'. local_copy st' now c' = local_copy st now c')"
    if "local_copy st now c = None"
    using sync_missing(1,2)[OF that, of res] run by simp
  from found missing show ?thesis by blast
qed

theorem syncOrderStatusFromServer_overwrites_witness:
  "in_date_range 5 \<and> local_copy saved_store 5 ''AB1234'' = Some sample_order \<and>
   fst (syncOrderStatusFromServer saved_store 5 ''AB1234''
          \<lparr>status = Some ''used'', res_used_at = Some 4\<rparr>)
     = Some (sample_order\<lparr> otp_status := Some ''used'', is_complete := Some True,
                            counters_completed := Some [''Snacks''], used_at := Some 4,
                            updated_at := Some 5 \<rparr>) \<and>
   fst (syncOrderStatusFromServer saved_store 5 ''AB1234''
          \<lparr>status = Some ''error'', res_used_at = None\<rparr>)
     = Some sample_order \<and>
   own_name ''ZZ0000'' \<and> local_copy saved_store 5 ''ZZ0000'' = None \<and>
   fst (syncOrderStatusFromServer saved_store 5 ''ZZ0000''
          \<lparr>status = Some ''active'', res_used_at = None\<rparr>)
     = None"
proof -
  have d: "in_date_range 5"
    by (simp add: in_date_range_def max_time_def)
  have n: "own_name ''ZZ0000''"
    by (simp add: own_name_def object_prototype_names_def)
  have z: "local_copy saved_store 5 ''ZZ0000'' = None"
    unfolding local_copy_live saved_store_merged by (simp add: live_def)
  have u: "fst (syncOrderStatusFromServer saved_store 5 ''AB1234''
                  \<lparr>status = Some ''used'', res_used_at = Some 4\<rparr>)
           = Some (sample_order\<lparr> otp_status := Some ''used'', is_complete := Some True,
                            counters_completed := Some [''Snacks''], used_at := Some 4,
                            updated_at := Some 5 \<rparr>)"
    using syncOrderStatusFromServer_overwrites[OF d,
        of saved_store "''AB1234''" "\<lparr>status = Some ''used'', res_used_at = Some 4\<rparr>"
           "fst (syncOrderStatusFromServer saved_store 5 ''AB1234''
                  \<lparr>status = Some ''used'', res_used_at = Some 4\<rparr>)"
           "snd (syncOrderStatusFromServer saved_store 5 ''AB1234''
                  \<lparr>status = Some ''used'', res_used_at = Some 4\<rparr>)"] saved_copy
    by (simp add: involved_def sample_order_def)
  have e: "fst (syncOrderStatusFromServer saved_store 5 ''AB1234''
                  \<lparr>status = Some ''error'', res_used_at = None\<rparr>)
           = Some sample_order"
    using syncOrderStatusFromServer_overwrites[OF d,
        of saved_store "''AB1234''" "\<lparr>status = Some ''error'', res_used_at = None\<rparr>"
           "fst (syncOrderStatusFromServer saved_store 5 ''AB1234''
                  \<lparr>status = Some ''error'', res_used_at = None\<rparr>)"
           "snd (syncOrderStatusFromServer saved_store 5 ''AB1234''
                  \<lparr>status = Some ''error'', res_used_at = None\<rparr>)"] saved_copy
    by simp
  have a: "fst (syncOrderStatusFromServer saved_store 5 ''ZZ0000''
                  \<lparr>status = Some ''active'', res_used_at = None\<rparr>)
           = None"
    using syncOrderStatusFromServer_overwrites[OF d,
        of saved_store "''ZZ0000''" "\<lparr>status = Some ''active'', res_used_at = None\<rparr>"
           "fst (syncOrderStatusFromServer saved_store 5 ''ZZ0000''
                  \<lparr>status = Some ''active'', res_used_at = None\<rparr>)"
           "snd (syncOrderStatusFromServer saved_store 5 ''ZZ0000''
                  \<lparr>status = Some ''active'', res_used_at = None\<rparr>)"] n z
    by simp
  from u e a d n z saved_copy show ?thesis by simp
qed

text \<open>
  C7 as stated fails for a stored copy that is past its \<open>expires_at\<close>. The order \<open>CD5678\<close>
  is stored as active and expired at instant 50. At instant 100 \<open>getAllOrders\<close> drops it
  from what it returns, \<open>current\<close> is \<open>{}\<close> and \<open>updateOrder\<close> finds no order to update: on
  the answers \<open>used\<close> and \<open>expired\<close> the call returns \<open>null\<close> and the stored copy keeps its
  \<open>otp_status\<close> \<open>active\<close>, and \<open>is_complete\<close> stays \<open>false\<close>.
\<close>

theorem syncOrderStatusFromServer_expired_copy_counterexample:
  "localStorage expired_only_store ''kgbites_orders''
     = Some [(''CD5678'', sample_order\<lparr>order_code := Some ''CD5678'', expires_at := Some 50\<rparr>)] \<and>
   otp_status (sample_order\<lparr>order_code := Some ''CD5678'', expires_at := Some 50\<rparr>)
     = Some ''active'' \<and>
   is_complete (sample_order\<lparr>order_code := Some ''CD5678'', expires_at := Some 50\<rparr>)
     = Some False \<and>
   fst (syncOrderStatusFromServer expired_only_store 100 ''CD5678''
          \<lparr>status = Some ''used'', res_used_at = Some 60\<rparr>) = None \<and>
   localStorage (snd (syncOrderStatusFromServer expired_only_store 100 ''CD5678''
                        \<lparr>status = Some ''used'', res_used_at = Some 60\<rparr>)) ''kgbites_orders''
     = Some [(''CD5678'', sample_order\<lparr>order_code := Some ''CD5678'', expires_at := Some 50\<rparr>)] \<and>
   fst (syncOrderStatusFromServer expired_only_store 100 ''CD5678''
          \<lparr>status = Some ''expired'', res_used_at = None\<rparr>) = None \<and>
   localStorage (snd (syncOrderStatusFromServer expired_only_store 100 ''CD5678''
                        \<lparr>status = Some ''expired'', res_used_at = None\<rparr>)) ''kgbites_orders''
     = Some [(''CD5678'', sample_order\<lparr>order_code := Some ''CD5678'', expires_at := Some 50\<rparr>)]"
proof -
  have v: "fst (getAllOrders expired_only_store 100) = []"
    by (rule expired_only_view)
  then have g: "snd (getAllOrders expired_only_store 100) = expired_only_store"
    by (simp add: snd_getAllOrders)
  have m: "local_copy expired_only_store 100 ''CD5678'' = None"
    by (simp add: local_copy_def v)
  have s: "snd (syncOrderStatusFromServer expired_only_store 100 ''CD5678'' res)
           = expired_only_store" for res
    using sync_missing(3)[OF m, of res] by (simp add: g)
  show ?thesis
    by (simp add: sync_missing(1)[OF m] s)
       (simp add: expired_only_store_def empty_store_def sample_order_def)
qed

section \<open>markCounterDelivered\<close>

lemma local_copy_getOrderByCode:
  "local_copy (snd (getOrderByCode st now c)) now c'
   = (case local_copy st now c of
        Some ord \<Rightarrow> if \<not> truthy (otp_status ord) \<and> c' = c
                    then Some ((upgrade_legacy now ord)\<lparr>updated_at := Some now\<rparr>)
                    else local_copy st now c'
      | None \<Rightarrow> local_copy st now c')"
proof (cases "local_copy st now c")
  case None
  then show ?thesis by (simp add: getOrderByCode_missing local_copy_getAllOrders)
next
  case (Some ord)
  show ?thesis
  proof (cases "truthy (otp_status ord)")
    case True
    with Some show ?thesis by (simp add: getOrderByCode_current local_copy_getAllOrders)
  next
    case False
    have "\<not> is_expired now ((upgrade_legacy now ord)\<lparr>updated_at := Some now\<rparr>)"
      by (simp add: is_expired_def upgrade_legacy_def)
    with Some False show ?thesis
      unfolding local_copy_live getOrderByCode_legacy(2)[OF Some False]
      by (auto simp: live_def split: option.splits)
  qed
qed

lemma getOrderByCode_Some:
  assumes "fst (getOrderByCode st now c) = Some r"
  shows "\<exists>x. local_copy (snd (getOrderByCode st now c)) now c = Some (r\<lparr>updated_at := x\<rparr>)"
    and "truthy (otp_status r)" and "otp_status r \<noteq> Some ''used''" and "\<not> is_expired now r"
proof -
  obtain ord where o: "local_copy st now c = Some ord"
    using assms by (cases "local_copy st now c") (auto simp: getOrderByCode_missing)
  show "\<exists>x. local_copy (snd (getOrderByCode st now c)) now c = Some (r\<lparr>updated_at := x\<rparr>)"
  proof (cases "truthy (otp_status ord)")
    case True
    with o assms have "r = ord"
      by (auto simp: getOrderByCode_current split: if_splits)
    then have "local_copy (snd (getOrderByCode st now c)) now c = Some (r\<lparr>updated_at := updated_at r\<rparr>)"
      using o True by (simp add: local_copy_getOrderByCode)
    then show ?thesis by blast
  next
    case False
    with o assms have "r = upgrade_legacy now ord"
      by (simp add: getOrderByCode_legacy(1))
    then show ?thesis using o False by (auto simp: local_copy_getOrderByCode)
  qed
  show "truthy (otp_status r)" "otp_status r \<noteq> Some ''used''" "\<not> is_expired now r"
    using o assms local_copy_not_expired[OF o]
    by (cases "truthy (otp_status ord)";
        auto simp: getOrderByCode_current getOrderByCode_legacy(1) upgrade_legacy_def truthy_def
                   is_expired_def split: if_splits)+
qed

lemma spread_deliver:
  "(spread_order (r\<lparr>updated_at := x\<rparr>) (deliver_order cn ids r))\<lparr>updated_at := u\<rparr>
   = (deliver_order cn ids r)\<lparr>updated_at := u\<rparr>"
  by (cases r)
     (auto simp: spread_order_def or_else_def deliver_order_def check_complete_def
                 add_completed_def mark_group_def Let_def split: option.splits)

lemma expires_at_deliver [simp]: "expires_at (deliver_order cn ids r) = expires_at r"
  by (auto simp: deliver_order_def check_complete_def add_completed_def mark_group_def Let_def
           split: option.splits)

lemma otp_status_deliver [simp]: "otp_status (deliver_order cn ids r) = otp_status r"
  by (auto simp: deliver_order_def check_complete_def add_completed_def mark_group_def Let_def
           split: option.splits)

lemma markCounterDelivered_None:
  assumes "fst (getOrderByCode st now c) = None"
  shows "markCounterDelivered st now c cn ids = (False, snd (getOrderByCode st now c))"
  using assms by (cases "getOrderByCode st now c") (simp add: markCounterDelivered_def)

lemma markCounterDelivered_Some:
  assumes "fst (getOrderByCode st now c) = Some r"
  shows "markCounterDelivered st now c cn ids
         = updateOrder (snd (getOrderByCode st now c)) now c (deliver_order cn ids r)"
  using assms by (cases "getOrderByCode st now c") (simp add: markCounterDelivered_def)

lemma markCounterDelivered_found:
  assumes "fst (getOrderByCode st now c) = Some r"
  shows "fst (markCounterDelivered st now c cn ids) = True"
    and "local_copy (snd (markCounterDelivered st now c cn ids)) now c
         = Some ((deliver_order cn ids r)\<lparr>updated_at := Some now\<rparr>)"
    and "c' \<noteq> c \<Longrightarrow> local_copy (snd (markCounterDelivered st now c cn ids)) now c'
                     = local_copy st now c'"
proof -
  from getOrderByCode_Some(1)[OF assms] obtain x where
    x: "local_copy (snd (getOrderByCode st now c)) now c = Some (r\<lparr>updated_at := x\<rparr>)"
    by blast
  have ne: "\<not> is_expired now ((deliver_order cn ids r)\<lparr>updated_at := Some now\<rparr>)"
    using getOrderByCode_Some(4)[OF assms] by (simp add: is_expired_def)
  show "fst (markCounterDelivered st now c cn ids) = True"
    by (simp add: markCounterDelivered_Some[OF assms] updateOrder_found(1)[OF x])
  show "local_copy (snd (markCounterDelivered st now c cn ids)) now c
         = Some ((deliver_order cn ids r)\<lparr>updated_at := Some now\<rparr>)"
    using ne
    by (simp add: markCounterDelivered_Some[OF assms] local_copy_updateOrder[OF x] spread_deliver)
  show "c' \<noteq> c \<Longrightarrow> local_copy (snd (markCounterDelivered st now c cn ids)) now c'
                     = local_copy st now c'"
    by (simp add: markCounterDelivered_Some[OF assms] local_copy_updateOrder[OF x]
          local_copy_getOrderByCode split: option.splits)
qed


lemma completed_mark_group [simp]:
  "counters_completed (mark_group cn ids r) = counters_completed r"
  by (simp add: mark_group_def split: option.splits)

lemma completed_deliver:
  "set (completed_list (deliver_order cn ids r)) = insert cn (set (completed_list r))"
  by (cases "counters_completed r")
     (auto simp: deliver_order_def check_complete_def add_completed_def completed_list_def Let_def)

lemma items_deliver:
  "items_by_counter r = Some groups \<Longrightarrow> map_of groups cn = Some its \<Longrightarrow>
   items_by_counter (deliver_order cn ids r)
   = Some (AList.update cn (map (mark_item ids) its) groups)"
  by (simp add: deliver_order_def check_complete_def add_completed_def mark_group_def Let_def)

lemma all_delivered_mark:
  "list_all delivered (map (mark_item ids) its)
   \<longleftrightarrow> list_all (\<lambda>it. item_id it \<in> set ids \<or> delivered it) its"
  by (induction its) (auto simp: mark_item_def)

lemma saved_lookup: "fst (getOrderByCode saved_store 5 ''AB1234'') = Some sample_order"
proof -
  have "truthy (otp_status sample_order)" by (simp add: truthy_def sample_order_def)
  from getOrderByCode_current[OF saved_copy this] show ?thesis
    by (simp add: sample_order_def)
qed

text \<open>
  C1, as the code has it. For an order that \<open>getOrderByCode\<close> finds and a counter with a
  group in it, \<open>markCounterDelivered\<close> answers \<open>true\<close>, replaces the group by the same items
  with \<open>delivered\<close> set on those whose id is listed, and puts the counter into
  \<open>counters_completed\<close> in every case. Every item of the group is delivered afterwards exactly
  when each one was listed or delivered before; the counter is recorded as completed either way.
\<close>

theorem markCounterDelivered_marks_and_completes:
  "fst (getOrderByCode st now c) = Some ord \<Longrightarrow>
   items_by_counter ord = Some groups \<Longrightarrow>
   map_of groups counter = Some its \<Longrightarrow>
     fst (markCounterDelivered st now c counter ids) = True \<and>
     (\<exists>ord'. local_copy (snd (markCounterDelivered st now c counter ids)) now c = Some ord' \<and>
        items_by_counter ord' = Some (AList.update counter (map (mark_item ids) its) groups) \<and>
        set (completed_list ord') = insert counter (set (completed_list ord)) \<and>
        (list_all delivered (map (mark_item ids) its)
           \<longleftrightarrow> list_all (\<lambda>it. item_id it \<in> set ids \<or> delivered it) its))"
proof -
  assume f: "fst (getOrderByCode st now c) = Some ord"
    and g: "items_by_counter ord = Some groups" "map_of groups counter = Some its"
  have c: "completed_list ((deliver_order counter ids ord)\<lparr>updated_at := Some now\<rparr>)
           = completed_list (deliver_order counter ids ord)"
    by (simp add: completed_list_def)
  show ?thesis
    using markCounterDelivered_found(1,2)[OF f, of counter ids] items_deliver[OF g, of ids]
    by (simp add: c completed_deliver all_delivered_mark)
qed

theorem markCounterDelivered_marks_and_completes_witness:
  "fst (getOrderByCode saved_store 5 ''AB1234'') = Some sample_order \<and>
   fst (markCounterDelivered saved_store 5 ''AB1234'' ''Snacks'' [1, 2]) = True"
proof -
  have g: "items_by_counter sample_order
           = Some [(''Snacks'',
                [\<lparr>item_id = 1, item_name = ''Samosa'', quantity = 1, delivered = False\<rparr>,
                 \<lparr>item_id = 2, item_name = ''Tea'', quantity = 2, delivered = False\<rparr>])]"
    by (simp add: sample_order_def)
  have m: "map_of [(''Snacks'',
                [\<lparr>item_id = 1, item_name = ''Samosa'', quantity = 1, delivered = False\<rparr>,
                 \<lparr>item_id = 2, item_name = ''Tea'', quantity = 2, delivered = False\<rparr>])]
             ''Snacks''
           = Some [\<lparr>item_id = 1, item_name = ''Samosa'', quantity = 1, delivered = False\<rparr>,
                   \<lparr>item_id = 2, item_name = ''Tea'', quantity = 2, delivered = False\<rparr>]"
    by simp
  from markCounterDelivered_marks_and_completes[OF saved_lookup g m, of "[1, 2]"] saved_lookup
  show ?thesis by simp
qed

text \<open>
  C1 as stated fails: delivering item 1 only of the two items at \<open>Snacks\<close> puts \<open>Snacks\<close> into
  \<open>counters_completed\<close> and sets \<open>is_complete\<close>, with item 2 still undelivered.
\<close>

theorem markCounterDelivered_partial_counterexample:
  "map_option counters_completed
     (local_copy (snd (markCounterDelivered saved_store 5 ''AB1234'' ''Snacks'' [1])) 5 ''AB1234'')
     = Some (Some [''Snacks'']) \<and>
   map_option items_by_counter
     (local_copy (snd (markCounterDelivered saved_store 5 ''AB1234'' ''Snacks'' [1])) 5 ''AB1234'')
     = Some (Some [(''Snacks'',
                [\<lparr>item_id = 1, item_name = ''Samosa'', quantity = 1, delivered = True\<rparr>,
                 \<lparr>item_id = 2, item_name = ''Tea'', quantity = 2, delivered = False\<rparr>])]) \<and>
   map_option is_complete
     (local_copy (snd (markCounterDelivered saved_store 5 ''AB1234'' ''Snacks'' [1])) 5 ''AB1234'')
     = Some (Some True)"
  unfolding markCounterDelivered_found(2)[OF saved_lookup]
  by (simp add: deliver_order_def check_complete_def add_completed_def mark_group_def Let_def
        mark_item_def sample_order_def completed_list_def counter_keys_def)

section \<open>Stored copies under the operations\<close>

lemma in_copies:
  "ord \<in> set (copies st c) \<longleftrightarrow> (\<exists>slot \<in> set (slots st). slot_map slot c = Some ord)"
  by (force simp: copies_def List.map_filter_def)

lemma merged_in_copies: "merged_map st c = Some ord \<Longrightarrow> ord \<in> set (copies st c)"
  by (auto simp: in_copies slots_def allKeys_def merged_map_def map_add_def split: option.splits)

lemma local_in_copies: "local_copy st now c = Some ord \<Longrightarrow> ord \<in> set (copies st c)"
  by (auto simp: local_copy_live live_def intro: merged_in_copies split: option.splits if_splits)

lemma copies_write_all:
  "ord \<in> set (copies (write_backup os (write_keys allKeys os st)) c) \<longleftrightarrow> map_of os c = Some ord"
  by (auto simp: in_copies slots_def allKeys_def localStorage_write_keys localStorage_write_backup
        sessionStorage_write_backup slot_map_def)

lemma copies_write_keys:
  "ord \<in> set (copies (write_keys allKeys os st) c)
   \<Longrightarrow> map_of os c = Some ord \<or> ord \<in> set (copies st c)"
  by (auto simp: in_copies slots_def allKeys_def localStorage_write_keys
        sessionStorage_write_keys slot_map_def)

lemma copies_getAllOrders:
  assumes "ord \<in> set (copies (snd (getAllOrders st now)) c)"
  shows "ord \<in> set (copies st c)"
proof (cases "fst (getAllOrders st now) = []")
  case True
  with assms show ?thesis by (simp add: snd_getAllOrders)
next
  case False
  with assms have "map_of (fst (getAllOrders st now)) c = Some ord \<or> ord \<in> set (copies st c)"
    by (auto simp: snd_getAllOrders dest: copies_write_keys)
  then show ?thesis
    by (auto simp: local_copy_def[symmetric] dest: local_in_copies)
qed

lemma updateOrder_found_store:
  assumes "local_copy st now c = Some ord"
  shows "snd (updateOrder st now c u)
         = write_backup
             (AList.update c ((spread_order ord u)\<lparr>updated_at := Some now\<rparr>)
                (fst (getAllOrders st now)))
             (write_keys allKeys
                (AList.update c ((spread_order ord u)\<lparr>updated_at := Some now\<rparr>)
                   (fst (getAllOrders st now)))
                (snd (getAllOrders st now)))"
  using assms by (simp add: updateOrder_def local_copy_def split_beta Let_def)

lemma copies_updateOrder:
  assumes "ord' \<in> set (copies (snd (updateOrder st now c u)) c')"
  shows "ord' \<in> set (copies st c') \<or>
         (c' = c \<and> (\<exists>ord. local_copy st now c = Some ord \<and>
                          ord' = (spread_order ord u)\<lparr>updated_at := Some now\<rparr>))"
proof (cases "local_copy st now c")
  case None
  with assms show ?thesis
    by (auto simp: updateOrder_missing dest: copies_getAllOrders)
next
  case (Some ord)
  from assms show ?thesis
    unfolding updateOrder_found_store[OF Some] copies_write_all
    using Some
    by (auto simp: AList.update_conv' local_copy_def[symmetric] dest: local_in_copies
             split: if_splits)
qed

lemma copies_saveOrder:
  "ord \<in> set (copies (snd (saveOrder st now origin orderData)) c) \<longleftrightarrow>
     (if c = key_of (order_code orderData)
      then ord = orderData\<lparr> created_at := Some now, updated_at := Some now,
                            otp_status := Some ''active'', generated_by := Some origin,
                            expires_at := Some (now + day_ms) \<rparr>
      else local_copy st now c = Some ord)"
  by (auto simp: saveOrder_def split_beta Let_def copies_write_all AList.update_conv'
        local_copy_def)

lemma getOrderByCode_store:
  "snd (getOrderByCode st now c)
   = (case local_copy st now c of
        None \<Rightarrow> snd (getAllOrders st now)
      | Some ord \<Rightarrow>
          if truthy (otp_status ord) then snd (getAllOrders st now)
          else snd (updateOrder (snd (getAllOrders st now)) now c (upgrade_legacy now ord)))"
  by (auto simp: getOrderByCode_def local_copy_def split_beta Let_def split: option.splits)

lemma copies_getOrderByCode:
  assumes "ord' \<in> set (copies (snd (getOrderByCode st now c)) c')"
  shows "ord' \<in> set (copies st c') \<or>
         (c' = c \<and> (\<exists>ord \<in> set (copies st c). \<not> truthy (otp_status ord) \<and>
                          ord' = (upgrade_legacy now ord)\<lparr>updated_at := Some now\<rparr>))"
proof (cases "local_copy st now c")
  case None
  with assms show ?thesis
    by (auto simp: getOrderByCode_store dest: copies_getAllOrders)
next
  case (Some ord)
  show ?thesis
  proof (cases "truthy (otp_status ord)")
    case True
    with Some assms show ?thesis
      by (auto simp: getOrderByCode_store dest: copies_getAllOrders)
  next
    case False
    with Some assms
    have "ord' \<in> set (copies (snd (updateOrder (snd (getAllOrders st now)) now c
                                      (upgrade_legacy now ord))) c')"
      by (simp add: getOrderByCode_store)
    from copies_updateOrder[OF this] Some False show ?thesis
      by (auto simp: local_copy_getAllOrders spread_order_upgrade
               dest: copies_getAllOrders local_in_copies)
  qed
qed

lemma getOrderByCode_result:
  assumes "fst (getOrderByCode st now c) = Some r"
  shows "r \<in> set (copies st c) \<or>
         (\<exists>ord \<in> set (copies st c). \<not> truthy (otp_status ord) \<and> r = upgrade_legacy now ord)"
proof -
  obtain ord where o: "local_copy st now c = Some ord"
    using assms by (cases "local_copy st now c") (auto simp: getOrderByCode_missing)
  show ?thesis
    using assms o local_in_copies[OF o]
    by (cases "truthy (otp_status ord)")
       (auto simp: getOrderByCode_current getOrderByCode_legacy(1) split: if_splits)
qed

lemma copies_markCounterDelivered:
  assumes "ord' \<in> set (copies (snd (markCounterDelivered st now c cn ids)) c')"
  shows "ord' \<in> set (copies st c') \<or>
         (c' = c \<and> (\<exists>ord \<in> set (copies st c). \<not> truthy (otp_status ord) \<and>
                          ord' = (upgrade_legacy now ord)\<lparr>updated_at := Some now\<rparr>)) \<or>
         (c' = c \<and> (\<exists>r. fst (getOrderByCode st now c) = Some r \<and>
                          ord' = (deliver_order cn ids r)\<lparr>updated_at := Some now\<rparr>))"
proof (cases "fst (getOrderByCode st now c)")
  case None
  with assms show ?thesis
    by (auto simp: markCounterDelivered_None dest: copies_getOrderByCode)
next
  case (Some r)
  from getOrderByCode_Some(1)[OF Some] obtain x where
    x: "local_copy (snd (getOrderByCode st now c)) now c = Some (r\<lparr>updated_at := x\<rparr>)"
    by blast
  from assms have "ord' \<in> set (copies (snd (updateOrder (snd (getOrderByCode st now c)) now c
                                   (deliver_order cn ids r))) c')"
    by (simp add: markCounterDelivered_Some[OF Some])
  from copies_updateOrder[OF this] x Some show ?thesis
    by (auto simp: spread_deliver dest: copies_getOrderByCode)
qed

section \<open>The expiry instant\<close>

lemma expiry_fixed_iff:
  "expiry_fixed st c E
   \<longleftrightarrow> (\<forall>ord \<in> set (copies st c). truthy (otp_status ord) \<and> expires_at ord = Some E)"
  by (simp add: expiry_fixed_def list_all_iff)


lemma expiry_fixed_markCounterDelivered:
  assumes "expiry_fixed st c E"
  shows "expiry_fixed (snd (markCounterDelivered st t c' cn ids)) c E"
  unfolding expiry_fixed_iff
proof
  fix ord'
  assume "ord' \<in> set (copies (snd (markCounterDelivered st t c' cn ids)) c)"
  from copies_markCounterDelivered[OF this]
  consider "ord' \<in> set (copies st c)"
    | ord where "ord \<in> set (copies st c)" "\<not> truthy (otp_status ord)"
    | r where "c = c'" "fst (getOrderByCode st t c') = Some r"
        "ord' = (deliver_order cn ids r)\<lparr>updated_at := Some t\<rparr>"
    by blast
  then show "truthy (otp_status ord') \<and> expires_at ord' = Some E"
  proof cases
    case 1
    with assms show ?thesis by (simp add: expiry_fixed_iff)
  next
    case 2
    with assms show ?thesis by (simp add: expiry_fixed_iff)
  next
    case 3
    from getOrderByCode_result[OF 3(2)] assms 3(1)
    have "truthy (otp_status r) \<and> expires_at r = Some E"
      by (auto simp: expiry_fixed_iff)
    with 3(3) show ?thesis by simp
  qed
qed

lemma truthy_status [simp]:
  "truthy (Some ''used'')" "truthy (Some ''expired'')" "truthy (Some ''active'')"
  by (simp_all add: truthy_def)









section \<open>The completion flag\<close>

lemma consistent_deliver: "completion_consistent (deliver_order cn ids r)"
  by (simp add: completion_consistent_def deliver_order_def check_complete_def
        completed_list_def counter_keys_def)

lemma consistent_updated_at:
  "completion_consistent (ord\<lparr>updated_at := x\<rparr>) = completion_consistent ord"
  by (simp add: completion_consistent_def completed_list_def counter_keys_def)

lemma consistent_upgrade:
  "completion_consistent (upgrade_legacy now ord) = completion_consistent ord"
  by (simp add: completion_consistent_def completed_list_def counter_keys_def upgrade_legacy_def)

lemma consistent_markCounterDelivered:
  assumes "\<forall>ord \<in> set (copies st c). completion_consistent ord"
  shows "\<forall>ord \<in> set (copies (snd (markCounterDelivered st t c' cn ids)) c).
           completion_consistent ord"
  using assms
  by (auto dest!: copies_markCounterDelivered
           simp: consistent_deliver consistent_updated_at consistent_upgrade)

lemma consistent_deliveries:
  "\<forall>ord \<in> set (copies st c). completion_consistent ord \<Longrightarrow>
   \<forall>ord \<in> set (copies (deliveries st calls) c). completion_consistent ord"
proof (induction calls arbitrary: st)
  case Nil
  then show ?case by simp
next
  case (Cons call calls)
  obtain t c' cn ids where call: "call = (t, c', cn, ids)" by (cases call) auto
  show ?case
    unfolding call deliveries.simps
    by (rule Cons.IH) (rule consistent_markCounterDelivered[OF Cons.prems])
qed

text \<open>
  C2, as the code has it. Start from order data with no completed counter, \<open>is_complete\<close>
  false and at least one counter in \<open>items_by_counter\<close>; save it and run any calls of
  \<open>markCounterDelivered\<close>, for any codes and at any instants. Whatever copy of the order is
  then read has \<open>is_complete\<close> true exactly when every counter key of \<open>items_by_counter\<close> is
  in \<open>counters_completed\<close>.
\<close>

theorem is_complete_iff_all_counters:
  "counters_completed od = Some [] \<Longrightarrow> is_complete od = Some False \<Longrightarrow>
   counter_keys od \<noteq> [] \<Longrightarrow>
   local_copy (deliveries (snd (saveOrder st t0 origin od)) calls) t (key_of (order_code od))
     = Some ord \<Longrightarrow>
   (is_complete ord = Some True
    \<longleftrightarrow> list_all (\<lambda>counter. counter \<in> set (completed_list ord)) (counter_keys ord))"
proof -
  assume fresh: "counters_completed od = Some []" "is_complete od = Some False"
      "counter_keys od \<noteq> []"
    and final: "local_copy (deliveries (snd (saveOrder st t0 origin od)) calls) t
                  (key_of (order_code od)) = Some ord"
  have "completion_consistent (od\<lparr> created_at := Some t0, updated_at := Some t0,
                            otp_status := Some ''active'', generated_by := Some origin,
                            expires_at := Some (t0 + day_ms) \<rparr>)"
    using fresh
    by (cases "counter_keys od")
       (auto simp: completion_consistent_def completed_list_def counter_keys_def)
  then have "\<forall>ord \<in> set (copies (snd (saveOrder st t0 origin od)) (key_of (order_code od))).
              completion_consistent ord"
    by (simp add: copies_saveOrder)
  from consistent_deliveries[OF this] local_in_copies[OF final]
  have "completion_consistent ord" by blast
  then show ?thesis by (simp add: completion_consistent_def)
qed

lemma saved_deliveries_copy:
  "local_copy (deliveries (snd (saveOrder empty_store 0 ''http://localhost:5173'' sample_order))
                 [(5, ''AB1234'', ''Snacks'', [1, 2])]) 5 ''AB1234''
   = Some ((deliver_order ''Snacks'' [1, 2] sample_order)\<lparr>updated_at := Some 5\<rparr>)"
  using markCounterDelivered_found(2)[OF saved_lookup, of "''Snacks''" "[1, 2]"]
  by (simp add: saved_store_def)

theorem is_complete_iff_all_counters_witness:
  "is_complete ((deliver_order ''Snacks'' [1, 2] sample_order)\<lparr>updated_at := Some 5\<rparr>)
     = Some True \<and>
   list_all (\<lambda>counter. counter \<in> set (completed_list
                ((deliver_order ''Snacks'' [1, 2] sample_order)\<lparr>updated_at := Some 5\<rparr>)))
     (counter_keys ((deliver_order ''Snacks'' [1, 2] sample_order)\<lparr>updated_at := Some 5\<rparr>))"
proof -
  have k: "key_of (order_code sample_order) = ''AB1234''"
    and f: "counters_completed sample_order = Some []" "is_complete sample_order = Some False"
      "counter_keys sample_order \<noteq> []"
    by (simp_all add: sample_order_def key_of_def counter_keys_def)
  have c: "is_complete ((deliver_order ''Snacks'' [1, 2] sample_order)\<lparr>updated_at := Some 5\<rparr>)
           = Some True"
    by (simp add: deliver_order_def check_complete_def add_completed_def mark_group_def
          sample_order_def completed_list_def counter_keys_def)
  from is_complete_iff_all_counters[OF f saved_deliveries_copy[folded k]] c
  show ?thesis by simp
qed

text \<open>
  C2 as stated fails for the order of an empty cart before any call: \<open>is_complete\<close> is false
  although every counter key (there is none) is in \<open>counters_completed\<close>.
\<close>

theorem is_complete_empty_order_counterexample:
  "map_option is_complete
     (local_copy (deliveries (snd (saveOrder empty_store 0 ''http://localhost:5173''
                                     empty_cart_order)) []) 5 ''EC0001'')
     = Some (Some False) \<and>
   map_option (\<lambda>ord. list_all (\<lambda>counter. counter \<in> set (completed_list ord))
                        (counter_keys ord))
     (local_copy (deliveries (snd (saveOrder empty_store 0 ''http://localhost:5173''
                                     empty_cart_order)) []) 5 ''EC0001'')
     = Some True"
  unfolding deliveries.simps local_copy_live saveOrder_merged merged_empty_store live_empty
  by (simp add: live_def is_expired_def key_of_def empty_cart_order_def no_fields_def day_ms_def
        counter_keys_def completed_list_def)

section \<open>generateOrderCode\<close>

declare generate_loop.simps [simp del]
declare bit_length.simps [simp del]
declare to_string.simps [simp del]

lemma getOrderByCode_None_iff:
  "fst (getOrderByCode st now c) = None \<longleftrightarrow>
     (case local_copy st now c of None \<Rightarrow> True | Some ord \<Rightarrow> otp_status ord = Some ''used'')"
proof (cases "local_copy st now c")
  case None
  then show ?thesis by (simp add: getOrderByCode_missing)
next
  case (Some ord)
  show ?thesis
  proof (cases "truthy (otp_status ord)")
    case True
    with Some show ?thesis by (simp add: getOrderByCode_current)
  next
    case False
    then have "otp_status ord \<noteq> Some ''used''" by (auto simp: truthy_def)
    with Some False show ?thesis by (simp add: getOrderByCode_legacy(1))
  qed
qed

lemma getOrderByCode_None_stable:
  "fst (getOrderByCode (snd (getOrderByCode st now c1)) now c) = None
   \<longleftrightarrow> fst (getOrderByCode st now c) = None"
  unfolding getOrderByCode_None_iff local_copy_getOrderByCode
  by (auto simp: upgrade_legacy_def truthy_def split: option.splits)

lemma generate_loop_free_or_fallback:
  "fst (generate_loop st now rnd a) = fallback_code now \<or>
   ((\<exists>i<maxAttempts - 1. fst (generate_loop st now rnd a) = draw_code rnd i) \<and>
    fst (getOrderByCode st now (fst (generate_loop st now rnd a))) = None)"
proof (induction st now rnd a rule: generate_loop.induct)
  case (1 st now rnd attempts)
  show ?case
  proof (cases "attempts + 1 \<ge> maxAttempts")
    case True
    then show ?thesis by (subst generate_loop.simps) (simp add: Let_def)
  next
    case False
    show ?thesis
    proof (cases "fst (getOrderByCode st now (draw_code rnd attempts))")
      case None
      with False have eq: "fst (generate_loop st now rnd attempts) = draw_code rnd attempts"
        by (subst generate_loop.simps)
           (auto simp: Let_def split: prod.splits option.splits)
      from False have "attempts < maxAttempts - 1" by simp
      with None show ?thesis unfolding eq by blast
    next
      case (Some found)
      obtain st' where g: "getOrderByCode st now (draw_code rnd attempts) = (Some found, st')"
        using Some by (cases "getOrderByCode st now (draw_code rnd attempts)") auto
      have eq: "generate_loop st now rnd attempts = generate_loop st' now rnd (attempts + 1)"
        using False g by (subst generate_loop.simps) (simp add: Let_def)
      have st': "st' = snd (getOrderByCode st now (draw_code rnd attempts))"
        using g by simp
      from "1.IH"[OF refl refl _ g[symmetric] refl] False
      have "fst (generate_loop st' now rnd (attempts + 1)) = fallback_code now \<or>
            ((\<exists>i<maxAttempts - 1. fst (generate_loop st' now rnd (attempts + 1)) = draw_code rnd i) \<and>
            fst (getOrderByCode st' now (fst (generate_loop st' now rnd (attempts + 1)))) = None)"
        by simp
      then show ?thesis
        unfolding eq st' getOrderByCode_None_stable .
    qed
  qed
qed

lemma generate_loop_all_collide:
  "(\<forall>i. a \<le> i \<and> i < maxAttempts - 1 \<longrightarrow> fst (getOrderByCode st now (draw_code rnd i)) \<noteq> None)
   \<Longrightarrow> fst (generate_loop st now rnd a) = fallback_code now"
proof (induction st now rnd a rule: generate_loop.induct)
  case (1 st now rnd attempts)
  show ?case
  proof (cases "attempts + 1 \<ge> maxAttempts")
    case True
    then show ?thesis by (subst generate_loop.simps) (simp add: Let_def)
  next
    case False
    then have "attempts < maxAttempts - 1" by simp
    with "1.prems" obtain found where
      Some: "fst (getOrderByCode st now (draw_code rnd attempts)) = Some found"
      by (cases "fst (getOrderByCode st now (draw_code rnd attempts))") auto
    obtain st' where g: "getOrderByCode st now (draw_code rnd attempts) = (Some found, st')"
      using Some by (cases "getOrderByCode st now (draw_code rnd attempts)") auto
    have eq: "generate_loop st now rnd attempts = generate_loop st' now rnd (attempts + 1)"
      using False g by (subst generate_loop.simps) (simp add: Let_def)
    have st': "st' = snd (getOrderByCode st now (draw_code rnd attempts))"
      using g by simp
    have "\<forall>i. attempts + 1 \<le> i \<and> i < maxAttempts - 1
            \<longrightarrow> fst (getOrderByCode st' now (draw_code rnd i)) \<noteq> None"
      using "1.prems" unfolding st' getOrderByCode_None_stable by simp
    from "1.IH"[OF refl refl _ g[symmetric] refl this] False
    show ?thesis unfolding eq by simp
  qed
qed

lemma bit_length_upper: "n < 2 ^ bit_length n"
proof (induction n rule: bit_length.induct)
  case (1 n)
  show ?case
  proof (cases "n = 0")
    case True
    then show ?thesis by (simp add: bit_length.simps)
  next
    case False
    from "1.IH"[OF False] have "n div 2 < 2 ^ bit_length (n div 2)" .
    then have "n < 2 * 2 ^ bit_length (n div 2)" by linarith
    with False show ?thesis by (subst bit_length.simps) simp
  qed
qed

lemma bit_length_lower: "n \<noteq> 0 \<Longrightarrow> 2 ^ (bit_length n - 1) \<le> n"
proof (induction n rule: bit_length.induct)
  case (1 n)
  show ?case
  proof (cases "n div 2 = 0")
    case True
    with "1.prems" have "n = 1" by linarith
    then show ?thesis by (simp add: bit_length.simps)
  next
    case False
    from "1.IH"[OF "1.prems" False] have h: "2 ^ (bit_length (n div 2) - 1) \<le> n div 2" .
    have pos: "bit_length (n div 2) \<noteq> 0"
      using False by (subst bit_length.simps) simp
    have "bit_length n - 1 = Suc (bit_length (n div 2) - 1)"
      using "1.prems" pos by (subst bit_length.simps) simp
    then have "(2::nat) ^ (bit_length n - 1) = 2 * 2 ^ (bit_length (n div 2) - 1)" by simp
    with h show ?thesis by linarith
  qed
qed

lemma bit_length_le: "q < 2 ^ k \<Longrightarrow> bit_length q \<le> k"
proof (rule ccontr)
  assume q: "q < 2 ^ k" and "\<not> bit_length q \<le> k"
  then have k: "k \<le> bit_length q - 1" by simp
  have "q \<noteq> 0"
  proof
    assume "q = 0"
    then have "bit_length q = 0" by (simp add: bit_length.simps)
    with \<open>\<not> bit_length q \<le> k\<close> show False by simp
  qed
  from bit_length_lower[OF this] have "2 ^ (bit_length q - 1) \<le> q" .
  moreover have "(2::nat) ^ k \<le> 2 ^ (bit_length q - 1)" using k by (simp add: power_increasing)
  ultimately show False using q by linarith
qed

lemma bit_length_gt: "2 ^ k \<le> q \<Longrightarrow> k < bit_length q"
proof -
  assume "2 ^ k \<le> q"
  with bit_length_upper[of q] have "(2::nat) ^ k < 2 ^ bit_length q" by linarith
  then show ?thesis by (simp add: power_strict_increasing_iff)
qed

lemma round_to_double_bound:
  assumes "2 ^ 53 \<le> q"
  shows "round_to_double q \<le> q + 2 ^ (bit_length q - 54)"
proof -
  define sh where "sh = bit_length q - 53"
  define h :: nat where "h = 2 ^ (sh - 1)"
  define t where "t = q div (2 * h)"
  define m where "m = q mod (2 * h)"
  have "53 < bit_length q" using assms by (rule bit_length_gt)
  then have sh: "sh = Suc (sh - 1)" and e: "bit_length q - 54 = sh - 1"
    by (simp_all add: sh_def)
  have two: "(2::nat) ^ sh = 2 * h"
    by (subst sh) (simp add: h_def)
  have d: "t * (2 * h) + m = q" unfolding t_def m_def by (rule div_mult_mod_eq)
  have nlt: "\<not> q < 2 ^ 53" using assms by simp
  have r: "round_to_double q = (if m > h \<or> (m = h \<and> odd t) then t + 1 else t) * (2 * h)"
    unfolding round_to_double_def Let_def if_not_P[OF nlt] sh_def[symmetric] two
      h_def[symmetric] t_def[symmetric] m_def[symmetric] ..
  have up: "m \<ge> h \<Longrightarrow> (t + 1) * (2 * h) \<le> q + h"
  proof -
    assume "m \<ge> h"
    have "(t + 1) * (2 * h) = t * (2 * h) + 2 * h" by (simp add: algebra_simps)
    with d \<open>m \<ge> h\<close> show ?thesis by linarith
  qed
  have down: "t * (2 * h) \<le> q + h" using d by linarith
  show ?thesis
    unfolding e r h_def[symmetric] using up down by auto
qed

lemma random_index_bound:
  assumes r: "is_unit_double r" and n: "2 ^ (bit_length (length s) - 1) < length s"
  shows "random_index r s < length s"
proof -
  define M :: nat where "M = 2 ^ 53"
  define n where "n = length s"
  define q where "q = fst r * n"
  define b where "b = bit_length n"
  have s: "fst r < M" and d: "53 \<le> snd r"
    using r by (simp_all add: is_unit_double_def M_def)
  have n': "2 ^ (b - 1) < n" using n by (simp add: n_def b_def)
  have npos: "0 < n" using n' by (cases "n = 0") auto
  have q: "q + n \<le> M * n"
  proof -
    have "Suc (fst r) \<le> M" using s by (rule Suc_leI)
    then have "Suc (fst r) * n \<le> M * n" by (rule mult_le_mono1)
    then show ?thesis by (simp add: q_def)
  qed
  have "round_to_double q < M * n"
  proof (cases "q < M")
    case True
    then have "round_to_double q = q" by (simp add: round_to_double_def M_def)
    with q npos show ?thesis by linarith
  next
    case False
    then have ge: "2 ^ 53 \<le> q" by (simp add: M_def)
    have "q < M * n" using q npos by linarith
    also have "\<dots> < M * 2 ^ b"
      using bit_length_upper[of n] by (simp add: M_def b_def)
    also have "\<dots> = 2 ^ (53 + b)" unfolding M_def by (rule power_add[symmetric])
    finally have "bit_length q \<le> 53 + b" by (rule bit_length_le)
    then have "bit_length q - 54 \<le> b - 1" by linarith
    then have "(2::nat) ^ (bit_length q - 54) \<le> 2 ^ (b - 1)"
      by (rule power_increasing) simp
    with n' round_to_double_bound[OF ge] q show ?thesis by linarith
  qed
  also have "\<dots> \<le> n * 2 ^ snd r"
  proof -
    have "M \<le> 2 ^ snd r" unfolding M_def using d by (rule power_increasing) simp
    then have "M * n \<le> 2 ^ snd r * n" by (rule mult_le_mono1)
    then show ?thesis by (simp only: mult.commute)
  qed
  finally have "round_to_double q div 2 ^ snd r < n"
    by (rule less_mult_imp_div_less)
  then show ?thesis by (simp add: random_index_def q_def n_def)
qed

lemma bit_length_alphabets: "bit_length (length letters) = 5" "bit_length (length numbers) = 4"
  by (simp_all add: letters_def numbers_def bit_length.simps)

lemma random_index_less:
  assumes "is_unit_double r"
  shows "random_index r letters < length letters" and "random_index r numbers < length numbers"
  by (rule random_index_bound[OF assms], simp add: bit_length_alphabets,
      simp add: letters_def numbers_def)+

lemma charAt_random:
  assumes "is_unit_double r"
  shows "\<exists>ch \<in> set letters. charAt letters (random_index r letters) = [ch]"
    and "\<exists>ch \<in> set numbers. charAt numbers (random_index r numbers) = [ch]"
  using random_index_less[OF assms] by (auto simp: charAt_def)

lemma valid_draw_code:
  assumes "\<forall>k. is_unit_double (rnd k)"
  shows "valid_code (draw_code rnd i)"
proof -
  from assms have r: "\<And>k. is_unit_double (rnd k)" by simp
  from charAt_random[OF r]
  obtain a b c d e f where
    "a \<in> set letters" "charAt letters (random_index (rnd (6 * i)) letters) = [a]"
    "b \<in> set letters" "charAt letters (random_index (rnd (6 * i + 1)) letters) = [b]"
    "c \<in> set numbers" "charAt numbers (random_index (rnd (6 * i + 2)) numbers) = [c]"
    "d \<in> set numbers" "charAt numbers (random_index (rnd (6 * i + 3)) numbers) = [d]"
    "e \<in> set numbers" "charAt numbers (random_index (rnd (6 * i + 4)) numbers) = [e]"
    "f \<in> set numbers" "charAt numbers (random_index (rnd (6 * i + 5)) numbers) = [f]"
    by metis
  then show ?thesis by (simp add: draw_code_def valid_code_def)
qed

lemma charAt_digit: "d < 10 \<Longrightarrow> \<exists>ch \<in> set numbers. charAt numbers d = [ch]"
proof -
  assume "d < 10"
  moreover have "length numbers = 10" by (simp add: numbers_def)
  ultimately have "d < length numbers" by simp
  then show ?thesis using nth_mem[of d numbers] by (simp add: charAt_def)
qed

lemma to_string_digits: "set (to_string n) \<subseteq> set numbers"
proof (induction n rule: to_string.induct)
  case (1 n)
  show ?case
  proof (cases "n < 10")
    case True
    with charAt_digit[of n] show ?thesis by (subst to_string.simps) auto
  next
    case False
    have "n mod 10 < 10" by simp
    from charAt_digit[OF this] "1.IH"[OF False] False show ?thesis
      by (subst to_string.simps) auto
  qed
qed

lemma to_string_nonempty: "1 \<le> length (to_string n)"
  using charAt_digit[of n] charAt_digit[of "n mod 10"]
  by (subst to_string.simps) (auto simp: not_less)

lemma to_string_step:
  "10 \<le> n \<Longrightarrow> length (to_string n) = length (to_string (n div 10)) + 1"
  using charAt_digit[of "n mod 10"] by (subst to_string.simps) auto

lemma to_string_length: "1000 \<le> n \<Longrightarrow> 4 \<le> length (to_string n)"
proof -
  assume n: "1000 \<le> n"
  then have "10 \<le> n" "10 \<le> n div 10" "10 \<le> n div 10 div 10" by simp_all
  then have "length (to_string n) = length (to_string (n div 10 div 10 div 10)) + 3"
    by (simp add: to_string_step)
  with to_string_nonempty[of "n div 10 div 10 div 10"] show ?thesis by simp
qed

lemma valid_fallback_code:
  assumes "1000 \<le> now"
  shows "valid_code (fallback_code now)"
proof -
  let ?s = "slice_last 4 (to_string now)"
  have len: "length ?s = 4"
    using to_string_length[OF assms] by (simp add: slice_last_def)
  have dig: "set ?s \<subseteq> set numbers"
    using to_string_digits[of now] set_drop_subset[of "length (to_string now) - 4" "to_string now"]
    by (auto simp: slice_last_def)
  from len obtain c d e f where s: "?s = [c, d, e, f]"
    by (auto simp: numeral_eq_Suc length_Suc_conv)
  with dig have "c \<in> set numbers" "d \<in> set numbers" "e \<in> set numbers" "f \<in> set numbers"
    by auto
  then show ?thesis
    unfolding fallback_code_def s by (simp add: valid_code_def letters_def)
qed

text \<open>
  C6. \<open>generate_loop\<close> is a total function: each pass raises \<open>attempts\<close>, and the pass that
  reaches 100 returns. With every value of \<open>Math.random()\<close> a double from 0 (included) to 1
  (excluded) and a clock of at least 1000 ms, within the range of \<open>Date\<close>, the code returned
  is two letters and four digits. It is the fallback code or one of the first 99 draws, and
  it is the fallback code when these 99 draws all collide.
\<close>

theorem generateOrderCode_valid_code:
  "(\<forall>k. is_unit_double (rnd k)) \<Longrightarrow> 1000 \<le> now \<Longrightarrow> in_date_range now \<Longrightarrow>
     valid_code (fst (generateOrderCode st now rnd)) \<and>
     (fst (generateOrderCode st now rnd) = fallback_code now \<or>
      (\<exists>i<99. fst (generateOrderCode st now rnd) = draw_code rnd i)) \<and>
     ((\<forall>i<99. fst (getOrderByCode st now (draw_code rnd i)) \<noteq> None)
        \<longrightarrow> fst (generateOrderCode st now rnd) = fallback_code now)"
proof -
  assume rnd: "\<forall>k. is_unit_double (rnd k)" and now: "1000 \<le> now"
  have alt: "fst (generateOrderCode st now rnd) = fallback_code now \<or>
      (\<exists>i<99. fst (generateOrderCode st now rnd) = draw_code rnd i)"
    using generate_loop_free_or_fallback[of st now rnd 0]
    by (auto simp: generateOrderCode_def maxAttempts_def)
  then have "valid_code (fst (generateOrderCode st now rnd))"
    using valid_draw_code[OF rnd] valid_fallback_code[OF now] by auto
  moreover have "(\<forall>i<99. fst (getOrderByCode st now (draw_code rnd i)) \<noteq> None)
        \<longrightarrow> fst (generateOrderCode st now rnd) = fallback_code now"
    using generate_loop_all_collide[of 0 st now rnd]
    by (simp add: generateOrderCode_def maxAttempts_def)
  ultimately show ?thesis using alt by blast
qed


lemma seven_tenths_index:
  "random_index (6305039478318694, 53) numbers = 7"
  "random_index (6305039478318694, 53) letters = 18"
  by (simp_all add: random_index_def round_to_double_def bit_length.simps Let_def
        letters_def numbers_def)

lemma seven_tenths_draw_code: "draw_code seven_tenths_draws i = ''SS7777''"
  by (simp add: draw_code_def seven_tenths_draws_def seven_tenths_index)
     (simp add: charAt_def letters_def numbers_def)





lemma one_code_free: "local_copy one_code_store 1234 ''SS7777'' = None"
  by (simp add: view_eval one_code_store_def)

lemma one_code_result: "fst (generateOrderCode one_code_store 1234 seven_tenths_draws) = ''SS7777''"
  using getOrderByCode_missing[OF one_code_free]
  by (subst generateOrderCode_def, subst generate_loop.simps)
     (simp add: Let_def seven_tenths_draw_code maxAttempts_def)

theorem generateOrderCode_valid_code_witness:
  "(\<forall>k. is_unit_double (seven_tenths_draws k)) \<and> (1000::nat) \<le> 1234 \<and> in_date_range 1234 \<and>
   valid_code (fst (generateOrderCode one_code_store 1234 seven_tenths_draws)) \<and>
   fst (generateOrderCode one_code_store 1234 seven_tenths_draws) = ''SS7777'' \<and>
   draw_code seven_tenths_draws 0 = ''SS7777''"
proof -
  have r: "\<forall>k. is_unit_double (seven_tenths_draws k)"
    by (simp add: seven_tenths_draws_def is_unit_double_def)
  have n: "(1000::nat) \<le> 1234" by simp
  have d: "in_date_range 1234" by (simp add: in_date_range_def max_time_def)
  from generateOrderCode_valid_code[OF r n d, of one_code_store] r d one_code_result
    seven_tenths_draw_code[of 0]
  show ?thesis by simp
qed






section \<open>Order of the deliveries\<close>

lemma live_Some: "live t m c = Some ord \<longleftrightarrow> m c = Some ord \<and> \<not> is_expired t ord"
  by (auto simp: live_def split: option.splits)

lemma is_expired_mono: "is_expired t1 ord \<Longrightarrow> t1 \<le> t2 \<Longrightarrow> is_expired t2 ord"
  by (auto simp: is_expired_def split: option.splits)

lemma merged_getAllOrders:
  "merged_map (snd (getAllOrders st t)) c
   = (if fst (getAllOrders st t) = [] then merged_map st c
      else case slot_map (sessionStorage st ''kgbites_orders_backup'') c of
             Some b \<Rightarrow> Some b
           | None \<Rightarrow> live t (merged_map st) c)"
  by (simp add: snd_getAllOrders merged_map_write_keys view_getAllOrders map_add_def)

lemma merged_backup:
  "slot_map (sessionStorage st ''kgbites_orders_backup'') c = Some b \<Longrightarrow> merged_map st c = Some b"
  by (simp add: merged_map_def map_add_def)

lemma failed_lookup_store:
  assumes "fst (getOrderByCode st t c) = None"
  shows "snd (getOrderByCode st t c) = snd (getAllOrders st t)"
  using assms
  by (cases "local_copy st t c")
     (auto simp: getOrderByCode_store getOrderByCode_None_iff truthy_def)

lemma failed_lookup_stays:
  assumes "fst (getOrderByCode st t1 c) = None" and "t1 \<le> t2"
  shows "fst (getOrderByCode (snd (getOrderByCode st t1 c)) t2 c) = None"
proof -
  have a: "case live t1 (merged_map st) c of None \<Rightarrow> True
           | Some ord \<Rightarrow> otp_status ord = Some ''used''"
    using assms(1) by (simp add: getOrderByCode_None_iff local_copy_live)
  have "case live t2 (merged_map (snd (getAllOrders st t1))) c of None \<Rightarrow> True
           | Some ord \<Rightarrow> otp_status ord = Some ''used''"
  proof (cases "live t2 (merged_map (snd (getAllOrders st t1))) c")
    case None
    then show ?thesis by simp
  next
    case (Some ord)
    then have m1: "merged_map (snd (getAllOrders st t1)) c = Some ord" and l2: "\<not> is_expired t2 ord"
      by (simp_all add: live_Some)
    from l2 assms(2) have l1: "\<not> is_expired t1 ord" using is_expired_mono by blast
    have "merged_map st c = Some ord"
      using m1 merged_backup[of st c]
      by (auto simp: merged_getAllOrders live_Some split: if_splits option.splits)
    with l1 have "live t1 (merged_map st) c = Some ord" by (simp add: live_Some)
    with a Some show ?thesis by simp
  qed
  then show ?thesis
    by (simp add: failed_lookup_store[OF assms(1)] getOrderByCode_None_iff local_copy_live)
qed

lemma deliveries_all_fail:
  "sorted ts \<Longrightarrow> (ts \<noteq> [] \<longrightarrow> fst (getOrderByCode st (hd ts) c) = None) \<Longrightarrow>
   length ds = length ts \<Longrightarrow> length ds' = length ts \<Longrightarrow>
   deliveries st (calls_on c ts ds) = deliveries st (calls_on c ts ds')"
proof (induction ts arbitrary: st ds ds')
  case Nil
  then show ?case by (simp add: calls_on_def)
next
  case (Cons t ts)
  obtain cn ids ds1 where ds: "ds = (cn, ids) # ds1"
    using Cons.prems(3) by (cases ds) auto
  obtain cn' ids' ds1' where ds': "ds' = (cn', ids') # ds1'"
    using Cons.prems(4) by (cases ds') auto
  have f: "fst (getOrderByCode st t c) = None" using Cons.prems(2) by simp
  let ?st = "snd (getOrderByCode st t c)"
  have next_fails: "ts \<noteq> [] \<longrightarrow> fst (getOrderByCode ?st (hd ts) c) = None"
  proof
    assume "ts \<noteq> []"
    then have "t \<le> hd ts" using Cons.prems(1) by (cases ts) auto
    from failed_lookup_stays[OF f this] show "fst (getOrderByCode ?st (hd ts) c) = None" .
  qed
  have "deliveries ?st (calls_on c ts ds1) = deliveries ?st (calls_on c ts ds1')"
    using Cons.prems by (intro Cons.IH next_fails) (simp_all add: ds ds')
  then show ?case
    by (simp add: calls_on_def ds ds' markCounterDelivered_None[OF f])
qed

lemma deliver_at_simps [simp]:
  "otp_status (deliver_at td r) = otp_status r"
  "expires_at (deliver_at td r) = expires_at r"
  "is_expired t (deliver_at td r) = is_expired t r"
  by (simp_all add: deliver_at_def is_expired_def)

lemma first_delivery:
  assumes "fst (getOrderByCode st t c) = Some r"
  shows "merged_map (snd (markCounterDelivered st t c cn ids)) c = Some (deliver_at (t, cn, ids) r)"
    and "set (copies (snd (markCounterDelivered st t c cn ids)) c) = {deliver_at (t, cn, ids) r}"
proof -
  have "local_copy (snd (markCounterDelivered st t c cn ids)) t c
        = Some (deliver_at (t, cn, ids) r)"
    using markCounterDelivered_found(2)[OF assms, of cn ids] by (simp add: deliver_at_def)
  then show "merged_map (snd (markCounterDelivered st t c cn ids)) c
             = Some (deliver_at (t, cn, ids) r)"
    by (simp add: local_copy_live live_Some)
  from getOrderByCode_Some(1)[OF assms] obtain x where
    x: "local_copy (snd (getOrderByCode st t c)) t c = Some (r\<lparr>updated_at := x\<rparr>)"
    by blast
  show "set (copies (snd (markCounterDelivered st t c cn ids)) c) = {deliver_at (t, cn, ids) r}"
    unfolding markCounterDelivered_Some[OF assms] updateOrder_found_store[OF x]
    by (auto simp: copies_write_all AList.update_conv' spread_deliver deliver_at_def)
qed

lemma later_delivery:
  assumes "merged_map st c = Some r" and "truthy (otp_status r)"
    and "otp_status r \<noteq> Some ''used''" and "\<not> is_expired t r"
  shows "merged_map (snd (markCounterDelivered st t c cn ids)) c = Some (deliver_at (t, cn, ids) r)"
proof -
  have "local_copy st t c = Some r"
    using assms(1,4) by (simp add: local_copy_live live_Some)
  from getOrderByCode_current[OF this assms(2)] assms(3)
  have "fst (getOrderByCode st t c) = Some r" by simp
  then show ?thesis by (rule first_delivery(1))
qed

lemma deliveries_all_found:
  "merged_map st c = Some r \<Longrightarrow> truthy (otp_status r) \<Longrightarrow> otp_status r \<noteq> Some ''used'' \<Longrightarrow>
   \<forall>t \<in> set ts. \<not> is_expired t r \<Longrightarrow> length ds = length ts \<Longrightarrow>
   merged_map (deliveries st (calls_on c ts ds)) c = Some (fold deliver_at (zip ts ds) r)"
proof (induction ts arbitrary: st r ds)
  case Nil
  then show ?case by (simp add: calls_on_def)
next
  case (Cons t ts)
  obtain cn ids ds1 where ds: "ds = (cn, ids) # ds1"
    using Cons.prems(5) by (cases ds) auto
  have "merged_map (snd (markCounterDelivered st t c cn ids)) c = Some (deliver_at (t, cn, ids) r)"
    using Cons.prems by (intro later_delivery) simp_all
  then have "merged_map (deliveries (snd (markCounterDelivered st t c cn ids))
                           (calls_on c ts ds1)) c
             = Some (fold deliver_at (zip ts ds1) (deliver_at (t, cn, ids) r))"
    using Cons.prems by (intro Cons.IH) (simp_all add: ds)
  then show ?case by (simp add: calls_on_def ds)
qed

lemma expiry_fixed_deliveries:
  "expiry_fixed st c E \<Longrightarrow> expiry_fixed (deliveries st calls) c E"
proof (induction calls arbitrary: st)
  case Nil
  then show ?case by simp
next
  case (Cons call calls)
  obtain t c' cn ids where call: "call = (t, c', cn, ids)" by (cases call) auto
  show ?case
    unfolding call deliveries.simps
    by (rule Cons.IH) (rule expiry_fixed_markCounterDelivered[OF Cons.prems])
qed

lemma expired_copy_hidden:
  assumes "expiry_fixed st c E" and "E < t"
  shows "local_copy st t c = None"
proof (cases "local_copy st t c")
  case None
  then show ?thesis .
next
  case (Some ord)
  from local_in_copies[OF Some] assms(1) have "expires_at ord = Some E"
    by (simp add: expiry_fixed_iff)
  with assms(2) local_copy_not_expired[OF Some] show ?thesis
    by (simp add: is_expired_def)
qed

lemma update_commute:
  "k \<noteq> k' \<Longrightarrow> map_of al k \<noteq> None \<Longrightarrow> map_of al k' \<noteq> None \<Longrightarrow>
   AList.update k v (AList.update k' v' al) = AList.update k' v' (AList.update k v al)"
  by (induction al) auto

lemma mark_item_commute:
  "mark_item a \<circ> mark_item b = mark_item b \<circ> mark_item a"
  by (auto simp: mark_item_def fun_eq_iff)

lemma mark_in_groups_commute:
  "mark_in_groups a (mark_in_groups b g) = mark_in_groups b (mark_in_groups a g)"
proof (cases g)
  case None
  then show ?thesis by (simp add: mark_in_groups_def)
next
  case (Some groups)
  show ?thesis
  proof (cases "fst a = fst b")
    case True
    then show ?thesis
      by (auto simp: Some mark_in_groups_def AList.update_conv' mark_item_commute
               split: option.splits)
  next
    case False
    then show ?thesis
      by (auto simp: Some mark_in_groups_def AList.update_conv' update_commute
               split: option.splits)
  qed
qed

lemma items_deliver_at:
  "items_by_counter (deliver_at td r) = mark_in_groups (snd td) (items_by_counter r)"
  by (auto simp: deliver_at_def deliver_order_def check_complete_def add_completed_def
        mark_group_def mark_in_groups_def Let_def split: option.splits)

lemma items_fold_deliver:
  "items_by_counter (fold deliver_at tds r)
   = fold mark_in_groups (map snd tds) (items_by_counter r)"
  by (induction tds arbitrary: r) (simp_all add: items_deliver_at)

lemma completed_deliver_at:
  "set (completed_list (deliver_at td r)) = insert (fst (snd td)) (set (completed_list r))"
  using completed_deliver[of "fst (snd td)" "snd (snd td)" r]
  by (simp add: deliver_at_def completed_list_def)

lemma completed_fold_deliver:
  "set (completed_list (fold deliver_at tds r))
   = set (completed_list r) \<union> fst ` set (map snd tds)"
  by (induction tds arbitrary: r) (auto simp: completed_deliver_at)

lemma keys_mark_in_groups:
  "map_option (map fst) (mark_in_groups d g) = map_option (map fst) g"
proof -
  have "\<And>(groups :: (string \<times> item list) list) its.
          map_of groups (fst d) = Some its \<Longrightarrow> fst d \<in> fst ` set groups"
    by (metis map_of_eq_None_iff option.distinct(1))
  then show ?thesis
    by (auto simp: mark_in_groups_def AList.update_keys split: option.splits)
qed

lemma counter_keys_deliver_at: "counter_keys (deliver_at td r) = counter_keys r"
  using keys_mark_in_groups[of "snd td" "items_by_counter r"]
  by (auto simp: counter_keys_def items_deliver_at split: option.splits)

lemma counter_keys_fold_deliver: "counter_keys (fold deliver_at tds r) = counter_keys r"
  by (induction tds arbitrary: r) (simp_all add: counter_keys_deliver_at)

lemma is_complete_deliver_at:
  "is_complete (deliver_at td r)
   = Some (list_all (\<lambda>k. k \<in> insert (fst (snd td)) (set (completed_list r))) (counter_keys r))"
proof -
  have "is_complete (deliver_at td r)
        = Some (list_all (\<lambda>k. k \<in> set (completed_list (deliver_at td r)))
                  (counter_keys (deliver_at td r)))"
    by (simp add: deliver_at_def deliver_order_def check_complete_def completed_list_def
          counter_keys_def)
  then show ?thesis by (simp add: completed_deliver_at counter_keys_deliver_at)
qed

lemma is_complete_fold_deliver:
  "tds \<noteq> [] \<Longrightarrow>
   is_complete (fold deliver_at tds r)
   = Some (list_all (\<lambda>k. k \<in> set (completed_list r) \<union> fst ` set (map snd tds))
             (counter_keys r))"
proof (induction tds rule: rev_induct)
  case Nil
  then show ?case by simp
next
  case (snoc td tds)
  have "insert (fst (snd td)) (set (completed_list r) \<union> fst ` set (map snd tds))
        = set (completed_list r) \<union> fst ` set (map snd (tds @ [td]))"
    by auto
  then show ?case
    by (simp add: is_complete_deliver_at completed_fold_deliver counter_keys_fold_deliver)
qed

lemma fields_deliver_at:
  "order_code (deliver_at td r) = order_code r"
  "created_at (deliver_at td r) = created_at r"
  "updated_at (deliver_at td r) = Some (fst td)"
  "used_at (deliver_at td r) = used_at r"
  "generated_by (deliver_at td r) = generated_by r"
  "counters_involved (deliver_at td r) = counters_involved r"
  by (auto simp: deliver_at_def deliver_order_def check_complete_def add_completed_def
        mark_group_def Let_def split: option.splits)

lemma fields_fold_deliver:
  "order_code (fold deliver_at tds r) = order_code r"
  "otp_status (fold deliver_at tds r) = otp_status r"
  "created_at (fold deliver_at tds r) = created_at r"
  "updated_at (fold deliver_at tds r)
   = (if tds = [] then updated_at r else Some (last (map fst tds)))"
  "expires_at (fold deliver_at tds r) = expires_at r"
  "used_at (fold deliver_at tds r) = used_at r"
  "generated_by (fold deliver_at tds r) = generated_by r"
  "counters_involved (fold deliver_at tds r) = counters_involved r"
  by (induction tds rule: rev_induct) (simp_all add: fields_deliver_at)

lemma fold_deliver_permuted:
  assumes "mset ds = mset ds'" and "length ds = length ts"
  shows "same_record (fold deliver_at (zip ts ds) r) (fold deliver_at (zip ts ds') r)"
proof -
  have s: "set ds = set ds'" using assms(1) by (rule mset_eq_setD)
  have l: "length ds' = length ts" using assms mset_eq_length by fastforce
  have m: "map snd (zip ts ds) = ds" "map snd (zip ts ds') = ds'"
    "map fst (zip ts ds) = ts" "map fst (zip ts ds') = ts"
    using assms(2) l by simp_all
  have e: "zip ts ds = [] \<longleftrightarrow> zip ts ds' = []"
    using assms(2) l by (cases ts; cases ds; cases ds') auto
  have "fold mark_in_groups ds = fold mark_in_groups ds'"
    by (rule fold_multiset_equiv[OF _ assms(1)]) (simp add: fun_eq_iff mark_in_groups_commute)
  then have i: "items_by_counter (fold deliver_at (zip ts ds) r)
                = items_by_counter (fold deliver_at (zip ts ds') r)"
    by (simp add: items_fold_deliver m)
  show ?thesis
  proof (cases "zip ts ds = []")
    case True
    with e have e': "zip ts ds' = []" by blast
    show ?thesis unfolding True e' by (simp add: same_record_def)
  next
    case False
    with e have ne: "zip ts ds' \<noteq> []" by blast
    have c: "set (completed_list (fold deliver_at (zip ts ds) r))
             = set (completed_list (fold deliver_at (zip ts ds') r))"
      unfolding completed_fold_deliver m using s by simp
    have k: "is_complete (fold deliver_at (zip ts ds) r)
             = is_complete (fold deliver_at (zip ts ds') r)"
      unfolding is_complete_fold_deliver[OF False] is_complete_fold_deliver[OF ne] m
      using s by simp
    have u: "updated_at (fold deliver_at (zip ts ds) r)
             = updated_at (fold deliver_at (zip ts ds') r)"
      unfolding fields_fold_deliver m using False ne by simp
    from i c k u show ?thesis
      by (simp add: same_record_def fields_fold_deliver(1,2,3,5,6,7,8))
  qed
qed

lemma is_expired_fold_deliver [simp]:
  "is_expired t (fold deliver_at tds r) = is_expired t r"
  by (simp add: is_expired_def fields_fold_deliver)

lemma run_after_first_found:
  assumes f: "fst (getOrderByCode st t1 c) = Some r"
    and len: "length ds1 = length ts'"
    and le: "\<forall>t' \<in> set (t1 # ts'). t' \<le> t"
  shows "local_copy (deliveries st (calls_on c (t1 # ts') ((cn, ids) # ds1))) t c
         = (if is_expired t r then None
            else Some (fold deliver_at (zip (t1 # ts') ((cn, ids) # ds1)) r))"
proof -
  let ?st1 = "snd (markCounterDelivered st t1 c cn ids)"
  let ?x = "deliver_at (t1, cn, ids) r"
  have run: "deliveries st (calls_on c (t1 # ts') ((cn, ids) # ds1))
             = deliveries ?st1 (calls_on c ts' ds1)"
    by (simp add: calls_on_def)
  note ok = getOrderByCode_Some(2,3)[OF f]
  show ?thesis
  proof (cases "is_expired t r")
    case True
    then obtain E where E: "expires_at r = Some E" "E < t"
      by (auto simp: is_expired_def split: option.splits)
    have "expiry_fixed ?st1 c E"
      using ok(1) E(1) by (simp add: expiry_fixed_iff first_delivery(2)[OF f])
    then have "expiry_fixed (deliveries ?st1 (calls_on c ts' ds1)) c E"
      by (rule expiry_fixed_deliveries)
    from expired_copy_hidden[OF this E(2)] True show ?thesis
      by (simp add: run)
  next
    case False
    have ne: "\<forall>t' \<in> set ts'. \<not> is_expired t' ?x"
      using False le is_expired_mono by auto
    have "merged_map (deliveries ?st1 (calls_on c ts' ds1)) c
          = Some (fold deliver_at (zip ts' ds1) ?x)"
      using ok ne len by (intro deliveries_all_found first_delivery(1)[OF f]) simp_all
    with False show ?thesis
      by (simp add: run local_copy_live live_def)
  qed
qed

text \<open>
  C8. Take two runs of \<open>markCounterDelivered\<close> on one order, the deliveries of one being a
  permutation of those of the other (which covers deliveries to distinct counters, each
  with its full list of ids), made at the same instants in nondecreasing order. Read back
  at any instant from the last call on, the two runs leave the same record: the same items
  with the same \<open>delivered\<close> flags, the same \<open>counters_completed\<close> as a set, the same
  \<open>is_complete\<close> and the same other fields, or no record for both.
\<close>

theorem markCounterDelivered_order_independent:
  "mset ds = mset ds' \<Longrightarrow> length ts = length ds \<Longrightarrow> sorted ts \<Longrightarrow> \<forall>t' \<in> set ts. t' \<le> t \<Longrightarrow>
   rel_option same_record
     (local_copy (deliveries st (calls_on c ts ds)) t c)
     (local_copy (deliveries st (calls_on c ts ds')) t c)"
proof -
  assume p: "mset ds = mset ds'" and len: "length ts = length ds"
    and srt: "sorted ts" and le: "\<forall>t' \<in> set ts. t' \<le> t"
  have len': "length ts = length ds'" using p len mset_eq_length by fastforce
  have same: "\<And>x. rel_option same_record x x"
    by (simp add: option.rel_refl same_record_def)
  show ?thesis
  proof (cases ts)
    case Nil
    then show ?thesis by (simp add: calls_on_def same)
  next
    case (Cons t1 ts')
    obtain cn ids ds1 where ds: "ds = (cn, ids) # ds1"
      using len Cons by (cases ds) auto
    obtain cn' ids' ds1' where ds': "ds' = (cn', ids') # ds1'"
      using len' Cons by (cases ds') auto
    show ?thesis
    proof (cases "fst (getOrderByCode st t1 c)")
      case None
      have "deliveries st (calls_on c ts ds) = deliveries st (calls_on c ts ds')"
        using srt None len len' by (intro deliveries_all_fail) (simp_all add: Cons)
      then show ?thesis by (simp add: same)
    next
      case (Some r)
      have l1: "length ds1 = length ts'" "length ds1' = length ts'"
        using len len' by (simp_all add: Cons ds ds')
      have le1: "\<forall>t' \<in> set (t1 # ts'). t' \<le> t" using le by (simp add: Cons)
      have "same_record (fold deliver_at (zip ts ds) r) (fold deliver_at (zip ts ds') r)"
        using p len by (intro fold_deliver_permuted) simp_all
      then show ?thesis
        unfolding Cons ds ds'
          run_after_first_found[OF Some l1(1) le1] run_after_first_found[OF Some l1(2) le1]
        by simp
    qed
  qed
qed

lemma two_counter_lookup:
  "fst (getOrderByCode two_counter_store 5 ''XY0001'') = Some two_counter_order"
proof -
  have m: "merged_map two_counter_store = [''XY0001'' \<mapsto> two_counter_order]"
    unfolding two_counter_store_def saveOrder_merged merged_empty_store live_empty
    by (simp add: key_of_def two_counter_order_def day_ms_def)
  have c: "local_copy two_counter_store 5 ''XY0001'' = Some two_counter_order"
    unfolding local_copy_live m by (simp add: live_def is_expired_def two_counter_order_def)
  have "truthy (otp_status two_counter_order)"
    by (simp add: truthy_def two_counter_order_def)
  from getOrderByCode_current[OF c this] show ?thesis
    by (simp add: two_counter_order_def)
qed

theorem markCounterDelivered_order_independent_witness:
  "mset [(''Snacks'', [1, 2]), (''Meals'', [3::nat])]
     = mset [(''Meals'', [3]), (''Snacks'', [1, 2])] \<and>
   sorted [5, 9::nat] \<and>
   rel_option same_record
     (local_copy (deliveries two_counter_store
                    (calls_on ''XY0001'' [5, 9] [(''Snacks'', [1, 2]), (''Meals'', [3])]))
        20 ''XY0001'')
     (local_copy (deliveries two_counter_store
                    (calls_on ''XY0001'' [5, 9] [(''Meals'', [3]), (''Snacks'', [1, 2])]))
        20 ''XY0001'') \<and>
   map_option is_complete
     (local_copy (deliveries two_counter_store
                    (calls_on ''XY0001'' [5, 9] [(''Meals'', [3]), (''Snacks'', [1, 2])]))
        20 ''XY0001'')
     = Some (Some True)"
proof -
  have p: "mset [(''Snacks'', [1, 2]), (''Meals'', [3::nat])]
             = mset [(''Meals'', [3]), (''Snacks'', [1, 2])]"
    by (simp add: add.commute)
  have n: "length [5, 9::nat] = length [(''Snacks'', [1, 2]), (''Meals'', [3::nat])]"
    and s: "sorted [5, 9::nat]" and b: "\<forall>t' \<in> set [5, 9::nat]. t' \<le> 20"
    by simp_all
  have x: "\<not> is_expired 20 two_counter_order"
    by (simp add: is_expired_def two_counter_order_def)
  have l: "local_copy (deliveries two_counter_store
                    (calls_on ''XY0001'' [5, 9] [(''Meals'', [3]), (''Snacks'', [1, 2])]))
             20 ''XY0001''
           = Some (fold deliver_at (zip [5, 9] [(''Meals'', [3]), (''Snacks'', [1, 2])])
                     two_counter_order)"
    using run_after_first_found[OF two_counter_lookup, of "[(''Snacks'', [1, 2])]" "[9]" 20
            "''Meals''" "[3]"] x
    by simp
  have c: "is_complete (fold deliver_at (zip [5, 9] [(''Meals'', [3]), (''Snacks'', [1, 2])])
                          two_counter_order) = Some True"
    by (subst is_complete_fold_deliver)
       (simp_all add: two_counter_order_def completed_list_def counter_keys_def)
  have "map_option is_complete
     (local_copy (deliveries two_counter_store
                    (calls_on ''XY0001'' [5, 9] [(''Meals'', [3]), (''Snacks'', [1, 2])]))
        20 ''XY0001'')
     = Some (Some True)"
    by (simp only: l option.map c)
  with markCounterDelivered_order_independent[OF p n s b, of two_counter_store "''XY0001''"] p s
  show ?thesis by simp
qed

end
